theory Spec2Isabelle
  imports Main "HOL-Library.Word"
begin

unbundle bit_operations_syntax

section \<open>Values of the log package (\<^verbatim>\<open>log/value.go\<close>)\<close>

text \<open>
  \<^verbatim>\<open>log/value.go\<close> holds two revisions of the same file. They agree on every function they
  share; the first has the kind \<^verbatim>\<open>KindUint64\<close> (with \<^verbatim>\<open>Uint64Value\<close> and \<^verbatim>\<open>Value.Uint64\<close>),
  the second has \<^verbatim>\<open>KindBytes\<close> and \<^verbatim>\<open>KindList\<close> (with \<^verbatim>\<open>BytesValue\<close>, \<^verbatim>\<open>ListValue\<close>,
  \<^verbatim>\<open>Value.Bytes\<close>, \<^verbatim>\<open>Value.List\<close>). The tests in \<^verbatim>\<open>log/value_test.go\<close> use both sets, so the
  embedding has the kinds of both revisions; each branch below is the branch of the
  revision that has it.

  Machine types: \<^verbatim>\<open>uint64\<close> is \<open>64 word\<close>; \<^verbatim>\<open>int64\<close> is \<open>64 word\<close> read by \<open>sint\<close> (the
  conversions \<^verbatim>\<open>uint64(v)\<close> and \<^verbatim>\<open>int64(v.num)\<close> keep the bits); \<^verbatim>\<open>float64\<close> is represented by
  its IEEE-754 bit pattern, also a \<open>64 word\<close>, so that \<^verbatim>\<open>math.Float64bits\<close> and
  \<^verbatim>\<open>math.Float64frombits\<close> keep the bits as well. A Go \<^verbatim>\<open>string\<close> is a byte sequence,
  here \<open>string\<close>; a \<^verbatim>\<open>[]byte\<close> is a \<open>8 word list\<close>.
\<close>

type_synonym uint64 = "64 word"
type_synonym int64 = "64 word"
type_synonym float64 = "64 word"
type_synonym byte = "8 word"

text \<open>
  \<^verbatim>\<open>type Kind int\<close> with its named constants; \<open>KindOther\<close> stands for a \<^verbatim>\<open>Kind\<close> that is
  none of them (the \<^verbatim>\<open>default:\<close> branches of the source).
\<close>

datatype Kind = KindEmpty | KindBool | KindFloat64 | KindInt64 | KindString | KindUint64
  | KindBytes | KindList | KindGroup | KindOther int

text \<open>
  \<^verbatim>\<open>Value\<close> is the struct \<^verbatim>\<open>{num uint64; any any}\<close>. The interface field holds nothing, a
  \<^verbatim>\<open>Kind\<close>, or one of the pointer types \<^verbatim>\<open>stringptr\<close>, \<^verbatim>\<open>bytesptr\<close>, \<^verbatim>\<open>listptr\<close>, \<^verbatim>\<open>groupptr\<close>.
  A pointer is modelled by the backing storage it points to (the storage is never written
  after construction); the length is kept apart in \<open>num\<close>, as in the source.
\<close>

datatype Value = Value (num: uint64) (any: Any)
and Any = AnyNil | AnyKind Kind | Stringptr string | Bytesptr "byte list"
  | Listptr "Value list" | Groupptr "KeyValue list"
and KeyValue = KeyValue (Key: string) (Val: Value)

text \<open>
  The values a \<^verbatim>\<open>panic\<close> carries: the message of \<^verbatim>\<open>Int64\<close>, \<^verbatim>\<open>Bool\<close>, ... (got and wanted kind),
  the \<^verbatim>\<open>bad kind\<close> message of the \<^verbatim>\<open>default:\<close> branches, the message of \<^verbatim>\<open>Bytes\<close>, \<^verbatim>\<open>List\<close> and
  \<^verbatim>\<open>Group\<close>, the run-time error of a failed type assertion \<^verbatim>\<open>v.any.(T)\<close> (dynamic type,
  asserted type), and the run-time error of an index out of range.
\<close>

datatype panic = KindMismatch Kind Kind | BadKind Kind | AccessorBadKind string
  | InterfaceConversion string string | IndexOutOfRange

definition pbind :: "panic + 'a \<Rightarrow> ('a \<Rightarrow> panic + 'b) \<Rightarrow> panic + 'b" where
  "pbind m f = (case m of Inl p \<Rightarrow> Inl p | Inr x \<Rightarrow> f x)"

definition kindStrings :: "string list" where
  "kindStrings = [''KindEmpty'', ''Bool'', ''Float64'', ''Int64'', ''String'', ''Uint64'',
     ''Bytes'', ''List'', ''Group'']"

fun Kind_String :: "Kind \<Rightarrow> string" where
  "Kind_String KindEmpty = kindStrings ! 0"
| "Kind_String KindBool = kindStrings ! 1"
| "Kind_String KindFloat64 = kindStrings ! 2"
| "Kind_String KindInt64 = kindStrings ! 3"
| "Kind_String KindString = kindStrings ! 4"
| "Kind_String KindUint64 = kindStrings ! 5"
| "Kind_String KindBytes = kindStrings ! 6"
| "Kind_String KindList = kindStrings ! 7"
| "Kind_String KindGroup = kindStrings ! 8"
| "Kind_String (KindOther k) = ''<unknown log.Kind>''"

definition emptyString :: string where
  "emptyString = ''<nil>''"

fun Value_Kind :: "Value \<Rightarrow> Kind" where
  "Value_Kind v = (case any v of
      AnyKind x \<Rightarrow> x
    | Stringptr _ \<Rightarrow> KindString
    | Bytesptr _ \<Rightarrow> KindBytes
    | Listptr _ \<Rightarrow> KindList
    | Groupptr _ \<Rightarrow> KindGroup
    | AnyNil \<Rightarrow> KindEmpty)"

fun Any_type :: "Any \<Rightarrow> string" where
  "Any_type AnyNil = ''nil''"
| "Any_type (AnyKind _) = ''log.Kind''"
| "Any_type (Stringptr _) = ''log.stringptr''"
| "Any_type (Bytesptr _) = ''log.bytesptr''"
| "Any_type (Listptr _) = ''log.listptr''"
| "Any_type (Groupptr _) = ''log.groupptr''"

text \<open>
  \<^verbatim>\<open>unsafe.String(p, n)\<close> and \<^verbatim>\<open>unsafe.Slice(p, n)\<close>: the first \<open>n\<close> elements of the storage at
  \<open>p\<close>. (Beyond the storage the Go program reads foreign memory; the constructors never
  make \<open>n\<close> larger than the storage.)
\<close>

definition unsafe_String :: "string \<Rightarrow> uint64 \<Rightarrow> string" where
  "unsafe_String p n = take (unat n) p"

definition unsafe_Slice :: "'a list \<Rightarrow> uint64 \<Rightarrow> 'a list" where
  "unsafe_Slice p n = take (unat n) p"

subsection \<open>The unexported readers\<close>

definition Value_str :: "Value \<Rightarrow> panic + string" where
  "Value_str v = (case any v of
      Stringptr p \<Rightarrow> Inr (unsafe_String p (num v))
    | a \<Rightarrow> Inl (InterfaceConversion (Any_type a) ''log.stringptr''))"

definition Value_bool :: "Value \<Rightarrow> bool" where
  "Value_bool v = (num v = 1)"

definition Float64bits :: "float64 \<Rightarrow> uint64" where
  "Float64bits f = f"

definition Float64frombits :: "uint64 \<Rightarrow> float64" where
  "Float64frombits b = b"

definition Value_float :: "Value \<Rightarrow> float64" where
  "Value_float v = Float64frombits (num v)"

definition Value_bytes :: "Value \<Rightarrow> panic + byte list" where
  "Value_bytes v = (case any v of
      Bytesptr p \<Rightarrow> Inr (unsafe_Slice p (num v))
    | a \<Rightarrow> Inl (InterfaceConversion (Any_type a) ''log.bytesptr''))"

definition Value_list :: "Value \<Rightarrow> panic + Value list" where
  "Value_list v = (case any v of
      Listptr p \<Rightarrow> Inr (unsafe_Slice p (num v))
    | a \<Rightarrow> Inl (InterfaceConversion (Any_type a) ''log.listptr''))"

definition Value_group :: "Value \<Rightarrow> panic + KeyValue list" where
  "Value_group v = (case any v of
      Groupptr p \<Rightarrow> Inr (unsafe_Slice p (num v))
    | a \<Rightarrow> Inl (InterfaceConversion (Any_type a) ''log.groupptr''))"

definition Value_isEmptyGroup :: "Value \<Rightarrow> panic + bool" where
  "Value_isEmptyGroup v =
     (if Value_Kind v \<noteq> KindGroup then Inr False
      else pbind (Value_group v) (\<lambda>g. Inr (length g = 0)))"

subsection \<open>Constructors\<close>

definition StringValue :: "string \<Rightarrow> Value" where
  "StringValue s = Value (of_nat (length s)) (Stringptr s)"

definition Int64Value :: "int64 \<Rightarrow> Value" where
  "Int64Value v = Value v (AnyKind KindInt64)"

text \<open>\<^verbatim>\<open>int\<close> has 64 bits on the platforms the package is built for; \<^verbatim>\<open>int64(v)\<close> keeps it.\<close>

definition IntValue :: "int64 \<Rightarrow> Value" where
  "IntValue v = Int64Value v"

definition Uint64Value :: "uint64 \<Rightarrow> Value" where
  "Uint64Value v = Value v (AnyKind KindUint64)"

definition Float64Value :: "float64 \<Rightarrow> Value" where
  "Float64Value v = Value (Float64bits v) (AnyKind KindFloat64)"

definition BoolValue :: "bool \<Rightarrow> Value" where
  "BoolValue v = (let u = 0; u = (if v then 1 else u) in Value u (AnyKind KindBool))"

definition BytesValue :: "byte list \<Rightarrow> Value" where
  "BytesValue v = Value (of_nat (length v)) (Bytesptr v)"

definition ListValue :: "Value list \<Rightarrow> Value" where
  "ListValue vs = Value (of_nat (length vs)) (Listptr vs)"

text \<open>\<^verbatim>\<open>countEmptyGroups\<close>: the loop over \<open>as\<close> with the counter \<open>n\<close>.\<close>

fun countEmptyGroups_loop :: "KeyValue list \<Rightarrow> nat \<Rightarrow> panic + nat" where
  "countEmptyGroups_loop [] n = Inr n"
| "countEmptyGroups_loop (a # as) n =
     pbind (Value_isEmptyGroup (Val a))
       (\<lambda>e. countEmptyGroups_loop as (if e then n + 1 else n))"

definition countEmptyGroups :: "KeyValue list \<Rightarrow> panic + nat" where
  "countEmptyGroups as = countEmptyGroups_loop as 0"

text \<open>The loop of \<^verbatim>\<open>GroupValue\<close> that fills \<open>as2\<close>.\<close>

fun GroupValue_loop :: "KeyValue list \<Rightarrow> KeyValue list \<Rightarrow> panic + KeyValue list" where
  "GroupValue_loop [] as2 = Inr as2"
| "GroupValue_loop (a # kvs) as2 =
     pbind (Value_isEmptyGroup (Val a))
       (\<lambda>e. GroupValue_loop kvs (if \<not> e then as2 @ [a] else as2))"

definition GroupValue :: "KeyValue list \<Rightarrow> panic + Value" where
  "GroupValue kvs =
     pbind (countEmptyGroups kvs) (\<lambda>n.
       pbind (if n > 0 then GroupValue_loop kvs [] else Inr kvs) (\<lambda>kvs.
         Inr (Value (of_nat (length kvs)) (Groupptr kvs))))"

subsection \<open>Key-value pairs (\<^verbatim>\<open>log/keyvalue.go\<close>)\<close>

text \<open>
  The package functions \<^verbatim>\<open>log.String\<close>, \<^verbatim>\<open>log.Int64\<close>, ... share their names with methods of
  \<^verbatim>\<open>Value\<close>; here they carry the package name.
\<close>

definition log_String :: "string \<Rightarrow> string \<Rightarrow> KeyValue" where
  "log_String key v = KeyValue key (StringValue v)"

definition log_Int64 :: "string \<Rightarrow> int64 \<Rightarrow> KeyValue" where
  "log_Int64 key v = KeyValue key (Int64Value v)"

definition log_Int :: "string \<Rightarrow> int64 \<Rightarrow> KeyValue" where
  "log_Int key v = log_Int64 key v"

definition log_Uint64 :: "string \<Rightarrow> uint64 \<Rightarrow> KeyValue" where
  "log_Uint64 key v = KeyValue key (Uint64Value v)"

definition log_Float64 :: "string \<Rightarrow> float64 \<Rightarrow> KeyValue" where
  "log_Float64 key v = KeyValue key (Float64Value v)"

definition log_Bool :: "string \<Rightarrow> bool \<Rightarrow> KeyValue" where
  "log_Bool key v = KeyValue key (BoolValue v)"

definition log_Bytes :: "string \<Rightarrow> byte list \<Rightarrow> KeyValue" where
  "log_Bytes key v = KeyValue key (BytesValue v)"

definition log_List :: "string \<Rightarrow> Value list \<Rightarrow> KeyValue" where
  "log_List key args = KeyValue key (ListValue args)"

definition log_Group :: "string \<Rightarrow> KeyValue list \<Rightarrow> panic + KeyValue" where
  "log_Group key args = pbind (GroupValue args) (\<lambda>v. Inr (KeyValue key v))"

definition Value_Empty :: "Value \<Rightarrow> bool" where
  "Value_Empty v = (Value_Kind v = KindEmpty)"

definition KeyValue_Invalid :: "KeyValue \<Rightarrow> bool" where
  "KeyValue_Invalid a = (Key a = [] \<or> Value_Empty (Val a))"

subsection \<open>Accessors\<close>

definition Value_Int64 :: "Value \<Rightarrow> panic + int64" where
  "Value_Int64 v =
     (let g = Value_Kind v; w = KindInt64
      in if g \<noteq> w then Inl (KindMismatch g w) else Inr (num v))"

definition Value_Uint64 :: "Value \<Rightarrow> panic + uint64" where
  "Value_Uint64 v =
     (let g = Value_Kind v; w = KindUint64
      in if g \<noteq> w then Inl (KindMismatch g w) else Inr (num v))"

definition Value_Bool :: "Value \<Rightarrow> panic + bool" where
  "Value_Bool v =
     (let g = Value_Kind v; w = KindBool
      in if g \<noteq> w then Inl (KindMismatch g w) else Inr (Value_bool v))"

definition Value_Float64 :: "Value \<Rightarrow> panic + float64" where
  "Value_Float64 v =
     (let g = Value_Kind v; w = KindFloat64
      in if g \<noteq> w then Inl (KindMismatch g w) else Inr (Value_float v))"

definition Value_Bytes :: "Value \<Rightarrow> panic + byte list" where
  "Value_Bytes v = (case any v of
      Bytesptr sp \<Rightarrow> Inr (unsafe_Slice sp (num v))
    | _ \<Rightarrow> Inl (AccessorBadKind ''Bytes''))"

definition Value_List :: "Value \<Rightarrow> panic + Value list" where
  "Value_List v = (case any v of
      Listptr sp \<Rightarrow> Inr (unsafe_Slice sp (num v))
    | _ \<Rightarrow> Inl (AccessorBadKind ''List''))"

definition Value_Group :: "Value \<Rightarrow> panic + KeyValue list" where
  "Value_Group v = (case any v of
      Groupptr sp \<Rightarrow> Inr (unsafe_Slice sp (num v))
    | _ \<Rightarrow> Inl (AccessorBadKind ''Group''))"

subsection \<open>Equality\<close>

text \<open>
  The comparison \<^verbatim>\<open>==\<close> of two \<^verbatim>\<open>float64\<close> is that of IEEE-754 (Go language specification,
  comparison operators), here on the bit patterns: sign (bit 63), biased exponent (bits
  52 to 62) and fraction (bits 0 to 51). A pattern with exponent 2047 is an infinity
  (fraction 0) or a NaN. Any other pattern is the number \<open>float64_val f / 2 ^ 1075\<close>:
  \<open>\<plusminus> fraction * 2 ^ -1074\<close> for exponent 0 and \<open>\<plusminus> (2 ^ 52 + fraction) * 2 ^ (exponent - 1075)\<close>
  otherwise. A NaN is equal to nothing, itself included; the two zeros are equal.
\<close>

definition float64_sign :: "float64 \<Rightarrow> bool" where
  "float64_sign f = bit f 63"

definition float64_exp :: "float64 \<Rightarrow> int" where
  "float64_exp f = uint (drop_bit 52 f AND 0x7FF)"

definition float64_frac :: "float64 \<Rightarrow> int" where
  "float64_frac f = uint (f AND 0xFFFFFFFFFFFFF)"

definition float64_isNaN :: "float64 \<Rightarrow> bool" where
  "float64_isNaN f = (float64_exp f = 2047 \<and> float64_frac f \<noteq> 0)"

definition float64_isInf :: "float64 \<Rightarrow> bool" where
  "float64_isInf f = (float64_exp f = 2047 \<and> float64_frac f = 0)"

definition float64_mag :: "float64 \<Rightarrow> int" where
  "float64_mag f =
     (if float64_exp f = 0 then 2 * float64_frac f
      else (2 ^ 52 + float64_frac f) * 2 ^ nat (float64_exp f))"

definition float64_val :: "float64 \<Rightarrow> int" where
  "float64_val f = (if float64_sign f then - float64_mag f else float64_mag f)"

definition float64_eq :: "float64 \<Rightarrow> float64 \<Rightarrow> bool" where
  "float64_eq x y =
     (\<not> float64_isNaN x \<and> \<not> float64_isNaN y \<and>
      (if float64_isInf x \<or> float64_isInf y
       then float64_isInf x \<and> float64_isInf y \<and> float64_sign x = float64_sign y
       else float64_val x = float64_val y))"

text \<open>
  Modelled from the spec: \<^verbatim>\<open>sliceEqualFunc\<close> is called by \<^verbatim>\<open>Value.Equal\<close> and is not in the
  source files at hand. The spec has lists and groups compared "element-wise, recursively,
  in order, requiring equal length"; the first revision of \<^verbatim>\<open>Value.Equal\<close> calls
  \<^verbatim>\<open>slices.EqualFunc\<close> of the Go library in its place, which is this function: the lengths
  are compared first, then the elements in order up to the first pair that \<open>eq\<close> rejects.
\<close>

fun sliceEqualFunc_loop ::
  "('a \<Rightarrow> 'b \<Rightarrow> panic + bool) \<Rightarrow> 'a list \<Rightarrow> 'b list \<Rightarrow> panic + bool" where
  "sliceEqualFunc_loop eq [] s2 = Inr True"
| "sliceEqualFunc_loop eq (v1 # s1) [] = Inl IndexOutOfRange"
| "sliceEqualFunc_loop eq (v1 # s1) (v2 # s2) =
     pbind (eq v1 v2) (\<lambda>e. if \<not> e then Inr False else sliceEqualFunc_loop eq s1 s2)"

definition sliceEqualFunc ::
  "'a list \<Rightarrow> 'b list \<Rightarrow> ('a \<Rightarrow> 'b \<Rightarrow> panic + bool) \<Rightarrow> panic + bool" where
  "sliceEqualFunc s1 s2 eq =
     (if length s1 \<noteq> length s2 then Inr False else sliceEqualFunc_loop eq s1 s2)"

definition bytes_Equal :: "byte list \<Rightarrow> byte list \<Rightarrow> bool" where
  "bytes_Equal a b = (a = b)"

lemma pbind_cong [fundef_cong]:
  "m = m' \<Longrightarrow> (\<And>x. m' = Inr x \<Longrightarrow> f x = f' x) \<Longrightarrow> pbind m f = pbind m' f'"
  by (auto simp: pbind_def split: sum.splits)

lemma sliceEqualFunc_loop_cong:
  "(\<And>x y. x \<in> set s1 \<Longrightarrow> y \<in> set s2 \<Longrightarrow> eq x y = eq' x y) \<Longrightarrow>
   sliceEqualFunc_loop eq s1 s2 = sliceEqualFunc_loop eq' s1 s2"
  by (induction eq s1 s2 rule: sliceEqualFunc_loop.induct)
     (auto simp: pbind_def split: sum.splits)

lemma sliceEqualFunc_cong [fundef_cong]:
  "s1 = s1' \<Longrightarrow> s2 = s2' \<Longrightarrow>
   (\<And>x y. x \<in> set s1' \<Longrightarrow> y \<in> set s2' \<Longrightarrow> eq x y = eq' x y) \<Longrightarrow>
   sliceEqualFunc s1 s2 eq = sliceEqualFunc s1' s2' eq'"
  using sliceEqualFunc_loop_cong [of s1' s2' eq eq'] by (simp add: sliceEqualFunc_def)

lemma Value_list_size:
  assumes "Value_list v = Inr xs" and "x \<in> set xs"
  shows "size x < size v"
proof -
  obtain n p where v: "v = Value n (Listptr p)"
    using assms(1) by (cases v) (auto simp: Value_list_def split: Any.splits)
  have "x \<in> set p"
    using assms v by (auto simp: Value_list_def unsafe_Slice_def dest: in_set_takeD)
  then have "size x \<le> size_list size p"
    by (simp add: size_list_estimation')
  then show ?thesis using v by simp
qed

lemma Value_group_size:
  assumes "Value_group v = Inr xs" and "x \<in> set xs"
  shows "size (Val x) < size v"
proof -
  obtain n p where v: "v = Value n (Groupptr p)"
    using assms(1) by (cases v) (auto simp: Value_group_def split: Any.splits)
  have "x \<in> set p"
    using assms v by (auto simp: Value_group_def unsafe_Slice_def dest: in_set_takeD)
  then have "size x \<le> size_list size p"
    by (simp add: size_list_estimation')
  moreover have "size (Val x) < size x"
    by (cases x) simp
  ultimately show ?thesis using v by simp
qed

function Value_Equal :: "Value \<Rightarrow> Value \<Rightarrow> panic + bool"
  and KeyValue_Equal :: "KeyValue \<Rightarrow> KeyValue \<Rightarrow> panic + bool" where
  "Value_Equal v w =
     (let k1 = Value_Kind v; k2 = Value_Kind w
      in if k1 \<noteq> k2 then Inr False
         else case k1 of
           KindInt64 \<Rightarrow> Inr (num v = num w)
         | KindUint64 \<Rightarrow> Inr (num v = num w)
         | KindBool \<Rightarrow> Inr (num v = num w)
         | KindString \<Rightarrow>
             pbind (Value_str v) (\<lambda>s1. pbind (Value_str w) (\<lambda>s2. Inr (s1 = s2)))
         | KindFloat64 \<Rightarrow> Inr (float64_eq (Value_float v) (Value_float w))
         | KindList \<Rightarrow>
             pbind (Value_list v) (\<lambda>l1. pbind (Value_list w) (\<lambda>l2.
               sliceEqualFunc l1 l2 (\<lambda>x y. Value_Equal x y)))
         | KindGroup \<Rightarrow>
             pbind (Value_group v) (\<lambda>g1. pbind (Value_group w) (\<lambda>g2.
               sliceEqualFunc g1 g2 (\<lambda>a b. KeyValue_Equal a b)))
         | KindBytes \<Rightarrow>
             pbind (Value_bytes v) (\<lambda>b1. pbind (Value_bytes w) (\<lambda>b2.
               Inr (bytes_Equal b1 b2)))
         | KindEmpty \<Rightarrow> Inr True
         | KindOther k \<Rightarrow> Inl (BadKind k1))"
| "KeyValue_Equal a b =
     (if Key a = Key b then Value_Equal (Val a) (Val b) else Inr False)"
  by pat_completeness auto
termination
  apply (relation "measure (\<lambda>s. case s of Inl (v, w) \<Rightarrow> 2 * size v
                                 | Inr (a, b) \<Rightarrow> 2 * size (Val a) + 1)")
  subgoal by simp
  subgoal using Value_list_size by fastforce
  subgoal using Value_group_size by fastforce
  subgoal by simp
  done

declare Value_Equal.simps [simp del] KeyValue_Equal.simps [simp del]

subsection \<open>Formatting\<close>

text \<open>
  \<^verbatim>\<open>Value.append\<close> calls \<^verbatim>\<open>strconv.AppendInt\<close>, \<^verbatim>\<open>AppendUint\<close>, \<^verbatim>\<open>AppendBool\<close>,
  \<^verbatim>\<open>AppendFloat\<close> and \<^verbatim>\<open>fmt.Append\<close> of the Go library. They are modelled from the library's
  documentation: integers in base 10 with a leading \<^verbatim>\<open>-\<close> for a negative \<^verbatim>\<open>int64\<close>; \<^verbatim>\<open>true\<close> and
  \<^verbatim>\<open>false\<close>; for a \<^verbatim>\<open>float64\<close>, format \<^verbatim>\<open>'g'\<close> with precision \<^verbatim>\<open>-1\<close>, the fewest decimal digits
  that identify the value uniquely.
\<close>

definition digit :: "int \<Rightarrow> char" where
  "digit d = ''0123456789'' ! nat d"

function decimal :: "int \<Rightarrow> string" where
  "decimal n = (if n < 10 then [digit n] else decimal (n div 10) @ [digit (n mod 10)])"
  by pat_completeness auto
termination
  by (relation "measure nat") auto

declare decimal.simps [simp del]

definition AppendUint :: "string \<Rightarrow> uint64 \<Rightarrow> string" where
  "AppendUint dst u = dst @ decimal (uint u)"

definition AppendInt :: "string \<Rightarrow> int64 \<Rightarrow> string" where
  "AppendInt dst i =
     (if sint i < 0 then dst @ ''-'' @ decimal (- sint i) else dst @ decimal (sint i))"

definition AppendBool :: "string \<Rightarrow> bool \<Rightarrow> string" where
  "AppendBool dst b = (if b then dst @ ''true'' else dst @ ''false'')"

text \<open>
  The digits of a positive finite \<^verbatim>\<open>float64\<close> with the value \<open>m * 2 ^ e2\<close>. The decimals that
  read back as this value are those between the midpoints to its two neighbours (the
  lower midpoint is nearer when \<open>m\<close> is \<open>2 ^ 52\<close>, flag \<open>narrow\<close>), the midpoints themselves
  when \<open>m\<close> is even: \<open>within\<close> decides it for the decimal \<open>c * 10 ^ k\<close>, in integers.
  For \<open>n = 1, 2, ...\<close> digits, \<open>candidate\<close> tries the two \<open>n\<close>-digit decimals next to the
  value and takes the nearer one that reads back (the even one on a tie);
  \<open>shortest_search\<close> stops at the first \<open>n\<close> that has one (17 digits always do).
  \<open>decimal_exponent\<close> is the \<open>p\<close> with \<open>10 ^ p \<le> m * 2 ^ e2 < 10 ^ (p + 1)\<close>.
  \<open>shortest_digits\<close> returns the digits \<open>d\<close> and the position \<open>dp\<close> of the decimal point: the
  decimal is \<open>0.d\<close> times \<open>10 ^ dp\<close>, as in \<^verbatim>\<open>strconv\<close>'s \<^verbatim>\<open>decimalSlice\<close>.
\<close>

function exp10_up :: "int \<Rightarrow> int \<Rightarrow> int \<Rightarrow> int" where
  "exp10_up a b p = (if b \<le> 0 \<or> a < 10 * b then p else exp10_up a (10 * b) (p + 1))"
  by pat_completeness auto
termination
  by (relation "measure (\<lambda>(a, b, p). nat (a - b))") auto

function exp10_down :: "int \<Rightarrow> int \<Rightarrow> int \<Rightarrow> int" where
  "exp10_down a b p = (if a \<le> 0 \<or> b \<le> a then p else exp10_down (10 * a) b (p - 1))"
  by pat_completeness auto
termination
  by (relation "measure (\<lambda>(a, b, p). nat (b - a))") auto

declare exp10_up.simps [simp del] exp10_down.simps [simp del]



definition decimal_exponent :: "int \<Rightarrow> int \<Rightarrow> int" where
  "decimal_exponent m e2 =
     (let a = m * 2 ^ nat e2; b = 2 ^ nat (- e2)
      in if b \<le> a then exp10_up a b 0 else exp10_down a b 0)"

definition within :: "int \<Rightarrow> int \<Rightarrow> bool \<Rightarrow> int \<Rightarrow> int \<Rightarrow> bool" where
  "within m e2 narrow c k =
     (let q = e2 - 2;
          s = 2 ^ nat q * 10 ^ nat (- k);
          t = 10 ^ nat k * 2 ^ nat (- q);
          lo = (4 * m - (if narrow then 1 else 2)) * s;
          hi = (4 * m + 2) * s;
          x = c * t
      in if even m then lo \<le> x \<and> x \<le> hi else lo < x \<and> x < hi)"

definition candidate :: "int \<Rightarrow> int \<Rightarrow> bool \<Rightarrow> int \<Rightarrow> (int \<times> int) option" where
  "candidate m e2 narrow k =
     (let a = m * 2 ^ nat e2 * 10 ^ nat (- k);
          b = 2 ^ nat (- e2) * 10 ^ nat k;
          lo = a div b;
          hi = lo + 1;
          inlo = within m e2 narrow lo k;
          inhi = within m e2 narrow hi k;
          r = 2 * (a mod b)
      in if inlo \<and> inhi then
           Some (if r < b \<or> (r = b \<and> even lo) then lo else hi, k)
         else if inlo then Some (lo, k)
         else if inhi then Some (hi, k)
         else None)"

fun shortest_search :: "int \<Rightarrow> int \<Rightarrow> bool \<Rightarrow> int \<Rightarrow> nat list \<Rightarrow> (int \<times> int) option" where
  "shortest_search m e2 narrow p [] = None"
| "shortest_search m e2 narrow p (n # ns) =
     (case candidate m e2 narrow (p - int n + 1) of
        Some ck \<Rightarrow> Some ck
      | None \<Rightarrow> shortest_search m e2 narrow p ns)"

fun strip_zeros :: "int \<Rightarrow> int \<Rightarrow> nat \<Rightarrow> int \<times> int" where
  "strip_zeros c k 0 = (c, k)"
| "strip_zeros c k (Suc fuel) =
     (if c \<noteq> 0 \<and> c mod 10 = 0 then strip_zeros (c div 10) (k + 1) fuel else (c, k))"

definition shortest_digits :: "int \<Rightarrow> int \<Rightarrow> bool \<Rightarrow> string \<times> int" where
  "shortest_digits m e2 narrow =
     (if m = 0 then ([], 0)
      else let p = decimal_exponent m e2 in
        case shortest_search m e2 narrow p [1..<18] of
          None \<Rightarrow> ([], 0)
        | Some (c, k) \<Rightarrow>
            (let (c', k') = strip_zeros c k 18; d = decimal c'
             in (d, k' + int (length d))))"

text \<open>
  \<^verbatim>\<open>%e\<close> and \<^verbatim>\<open>%f\<close> of \<^verbatim>\<open>strconv\<close> (\<^verbatim>\<open>-d.dddde\<plusminus>dd\<close> and \<^verbatim>\<open>-ddd.ddd\<close>). Format \<^verbatim>\<open>'g'\<close> with the
  shortest digits takes \<^verbatim>\<open>%e\<close> when the decimal exponent \<open>dp - 1\<close> is below \<open>-4\<close> or at least
  \<open>6\<close>, and \<^verbatim>\<open>%f\<close> otherwise.
\<close>

definition fmtE :: "string \<Rightarrow> bool \<Rightarrow> string \<times> int \<Rightarrow> int \<Rightarrow> string" where
  "fmtE dst neg digs prec =
     (let (d, dp) = digs;
          nd = int (length d);
          dst = (if neg then dst @ ''-'' else dst);
          dst = dst @ [if nd \<noteq> 0 then d ! 0 else CHR ''0''];
          dst = (if prec > 0
                 then let m = min nd (prec + 1)
                      in dst @ ''.'' @ drop 1 (take (nat m) d) @ replicate (nat (prec + 1 - max 1 m)) CHR ''0''
                 else dst);
          dst = dst @ ''e'';
          exp = (if nd = 0 then 0 else dp - 1);
          dst = dst @ (if exp < 0 then ''-'' else ''+'');
          exp = \<bar>exp\<bar>
      in if exp < 10 then dst @ [CHR ''0'', digit exp]
         else if exp < 100 then dst @ [digit (exp div 10), digit (exp mod 10)]
         else dst @ [digit (exp div 100), digit ((exp div 10) mod 10), digit (exp mod 10)])"

definition fmtF :: "string \<Rightarrow> bool \<Rightarrow> string \<times> int \<Rightarrow> int \<Rightarrow> string" where
  "fmtF dst neg digs prec =
     (let (d, dp) = digs;
          nd = int (length d);
          dst = (if neg then dst @ ''-'' else dst);
          dst = (if dp > 0
                 then let m = min nd dp in dst @ take (nat m) d @ replicate (nat (dp - m)) CHR ''0''
                 else dst @ ''0'')
      in if prec > 0
         then dst @ ''.'' @
              map (\<lambda>i. let j = dp + int i in if 0 \<le> j \<and> j < nd then d ! nat j else CHR ''0'')
                [0..<nat prec]
         else dst)"

definition AppendFloat :: "string \<Rightarrow> float64 \<Rightarrow> string" where
  "AppendFloat dst f =
     (let neg = float64_sign f; exp = float64_exp f; mant = float64_frac f
      in if exp = 2047 then
           dst @ (if mant \<noteq> 0 then ''NaN'' else if neg then ''-Inf'' else ''+Inf'')
         else
           let narrow = (mant = 0 \<and> exp > 1);
               (mant, exp) = (if exp = 0 then (mant, exp + 1) else (mant + 2 ^ 52, exp));
               digs = shortest_digits mant (exp - 1075) narrow;
               nd = int (length (fst digs));
               prec = nd;
               eprec = 6;
               x = snd digs - 1
           in if x < - 4 \<or> x \<ge> eprec then fmtE dst neg digs (prec - 1)
              else fmtF dst neg digs (max (prec - snd digs) 0))"


text \<open>
  \<^verbatim>\<open>fmt\<close> prints a slice as its elements between brackets, separated by spaces; an element
  that has a \<^verbatim>\<open>String\<close> method (\<^verbatim>\<open>Value\<close>, \<^verbatim>\<open>KeyValue\<close>) is printed by that method, a byte in
  base 10. A panic of the \<^verbatim>\<open>String\<close> method is recovered by \<^verbatim>\<open>fmt\<close> and printed in place of the
  element (\<open>fmt_panic\<close>).
\<close>

fun panic_text :: "panic \<Rightarrow> string" where
  "panic_text (KindMismatch g w) = ''Value kind is '' @ Kind_String g @ '', not '' @ Kind_String w"
| "panic_text (BadKind k) = ''bad kind: '' @ Kind_String k"
| "panic_text (AccessorBadKind n) = n @ '': bad kind''"
| "panic_text (InterfaceConversion d t) =
     ''interface conversion: interface {} is '' @ d @ '', not '' @ t"
| "panic_text IndexOutOfRange = ''runtime error: index out of range''"

definition fmt_panic :: "char \<Rightarrow> panic \<Rightarrow> string" where
  "fmt_panic verb p = ''%!'' @ [verb] @ ''(PANIC=String method: '' @ panic_text p @ '')''"

fun fmt_join :: "string list \<Rightarrow> string" where
  "fmt_join [] = []"
| "fmt_join [x] = x"
| "fmt_join (x # y # xs) = x @ '' '' @ fmt_join (y # xs)"

definition fmt_slice :: "string list \<Rightarrow> string" where
  "fmt_slice elems = ''['' @ fmt_join elems @ '']''"

text \<open>
  \<^verbatim>\<open>Value.String\<close>, \<^verbatim>\<open>Value.append\<close>, \<^verbatim>\<open>KeyValue.String\<close> (which is
  \<^verbatim>\<open>fmt.Sprintf("%s=%s", a.Key, a.Value)\<close>), and \<open>fmt_Value\<close>, what \<^verbatim>\<open>fmt\<close> prints for an
  operand of type \<^verbatim>\<open>Value\<close> under the given verb.
\<close>

function Value_String :: "Value \<Rightarrow> panic + string"
  and Value_append :: "Value \<Rightarrow> string \<Rightarrow> panic + string"
  and KeyValue_String :: "KeyValue \<Rightarrow> string"
  and fmt_Value :: "char \<Rightarrow> Value \<Rightarrow> string" where
  "Value_String v = (case any v of
      Stringptr sp \<Rightarrow> Inr (unsafe_String sp (num v))
    | _ \<Rightarrow> Value_append v [])"
| "Value_append v dst = (case Value_Kind v of
      KindString \<Rightarrow> pbind (Value_str v) (\<lambda>s. Inr (dst @ s))
    | KindInt64 \<Rightarrow> Inr (AppendInt dst (num v))
    | KindUint64 \<Rightarrow> Inr (AppendUint dst (num v))
    | KindFloat64 \<Rightarrow> Inr (AppendFloat dst (Value_float v))
    | KindBool \<Rightarrow> Inr (AppendBool dst (Value_bool v))
    | KindBytes \<Rightarrow> pbind (Value_bytes v) (\<lambda>b. Inr (dst @ fmt_slice (map (\<lambda>x. decimal (uint x)) b)))
    | KindGroup \<Rightarrow>
        pbind (Value_group v) (\<lambda>g. Inr (dst @ fmt_slice (map (\<lambda>a. KeyValue_String a) g)))
    | KindList \<Rightarrow>
        pbind (Value_list v) (\<lambda>l. Inr (dst @ fmt_slice (map (\<lambda>x. fmt_Value CHR ''v'' x) l)))
    | KindEmpty \<Rightarrow> Inr (dst @ emptyString)
    | KindOther k \<Rightarrow> Inl (BadKind (Value_Kind v)))"
| "KeyValue_String a = Key a @ ''='' @ fmt_Value CHR ''s'' (Val a)"
| "fmt_Value verb v = (case Value_String v of Inl p \<Rightarrow> fmt_panic verb p | Inr s \<Rightarrow> s)"
  by pat_completeness auto
termination
  apply (relation "measure (\<lambda>s. case s of
      Inl (Inl v) \<Rightarrow> 4 * size v + 1
    | Inl (Inr (v, dst)) \<Rightarrow> 4 * size v
    | Inr (Inl a) \<Rightarrow> 4 * size (Val a) + 3
    | Inr (Inr (verb, v)) \<Rightarrow> 4 * size v + 2)")
  subgoal by simp
  subgoal by simp
  subgoal by simp
  subgoal by simp
  subgoal by simp
  subgoal by simp
  subgoal using Value_list_size by fastforce
  subgoal using Value_group_size by fastforce
  subgoal by simp
  subgoal by simp
  done

subsection \<open>Values built by the public constructors\<close>

text \<open>
  The fields of \<^verbatim>\<open>Value\<close> are unexported: outside the package a \<^verbatim>\<open>Value\<close> is the zero value
  or the result of a constructor. A group is built from key-value pairs whose values were
  built before it (\<^verbatim>\<open>KeyValue\<close> has exported fields, so any key goes with any such value).
\<close>

inductive constructed :: "Value \<Rightarrow> bool" where
  zero: "constructed (Value 0 AnyNil)"
| StringValue: "constructed (StringValue s)"
| IntValue: "constructed (IntValue i)"
| Int64Value: "constructed (Int64Value i)"
| Uint64Value: "constructed (Uint64Value u)"
| Float64Value: "constructed (Float64Value f)"
| BoolValue: "constructed (BoolValue b)"
| BytesValue: "constructed (BytesValue bs)"
| ListValue: "(\<forall>v\<in>set vs. constructed v) \<Longrightarrow> constructed (ListValue vs)"
| GroupValue: "(\<forall>a\<in>set kvs. constructed (Val a)) \<Longrightarrow> GroupValue kvs = Inr g \<Longrightarrow> constructed g"

text \<open>The kinds whose value is held in \<open>num\<close>.\<close>

definition scalar_kind :: "Kind \<Rightarrow> bool" where
  "scalar_kind k = (k = KindBool \<or> k = KindFloat64 \<or> k = KindInt64 \<or> k = KindUint64)"

text \<open>
  \<open>nan_free v\<close>: no \<^verbatim>\<open>Float64\<close> value that is a NaN stands in \<open>v\<close>, at any depth of its lists
  and groups.
\<close>

function nan_free :: "Value \<Rightarrow> bool" where
  "nan_free v = (case Value_Kind v of
      KindFloat64 \<Rightarrow> \<not> float64_isNaN (Value_float v)
    | KindList \<Rightarrow> (case Value_list v of Inr l \<Rightarrow> list_all (\<lambda>x. nan_free x) l | Inl _ \<Rightarrow> True)
    | KindGroup \<Rightarrow>
        (case Value_group v of Inr g \<Rightarrow> list_all (\<lambda>a. nan_free (Val a)) g | Inl _ \<Rightarrow> True)
    | _ \<Rightarrow> True)"
  by pat_completeness auto
termination
  apply (relation "measure size")
  subgoal by simp
  subgoal using Value_list_size by fastforce
  subgoal using Value_group_size by fastforce
  done

declare nan_free.simps [simp del]

section \<open>The attribute container of a record\<close>

text \<open>
  The Go file that follows the workflow in \<^verbatim>\<open>.github/workflows/benchmark.yml\<close> (package
  \<^verbatim>\<open>logtest\<close>) has the type \<^verbatim>\<open>record\<close>: the first \<^verbatim>\<open>attributesInlineCount\<close> attributes are
  held in the array \<^verbatim>\<open>front\<close>, the others in the slice \<^verbatim>\<open>back\<close>. Two claims are about who
  shares the storage of \<^verbatim>\<open>back\<close>, so slices are modelled with a store.

  A store (\<open>heap\<close>) maps the address of an array to its elements; the addresses below
  \<open>next_array\<close> are allocated. A slice is the address of its array (\<open>base\<close>), the index of
  its first element in that array (\<open>off\<close>), its length and its capacity; the zero slice
  \<^verbatim>\<open>nil\<close> has capacity \<open>0\<close>. Lengths are \<open>nat\<close>: they are bounded by the memory, far below
  the range of \<^verbatim>\<open>int\<close>.

  The fields of \<^verbatim>\<open>record\<close> that are not attributes (time stamps, severity, body, trace
  context, resource, scope, limits) are left out: the functions below do not read or write
  them, and \<^verbatim>\<open>Clone\<close> copies them by value.
\<close>

definition attributesInlineCount :: nat where
  "attributesInlineCount = 5"

record slice =
  base :: nat
  off :: nat
  len :: nat
  cap :: nat

record heap =
  arrays :: "nat \<Rightarrow> KeyValue list"
  next_array :: nat

text \<open>The zero \<^verbatim>\<open>KeyValue\<close>: the empty key and the zero \<^verbatim>\<open>Value\<close>.\<close>

definition zeroKeyValue :: KeyValue where
  "zeroKeyValue = KeyValue [] (Value 0 AnyNil)"

definition nil_slice :: slice where
  "nil_slice = \<lparr>base = 0, off = 0, len = 0, cap = 0\<rparr>"

text \<open>The elements \<^verbatim>\<open>s[0], ..., s[len(s)-1]\<close> of a slice, read from the store.\<close>

definition slice_elems :: "heap \<Rightarrow> slice \<Rightarrow> KeyValue list" where
  "slice_elems h s = take (len s) (drop (off s) (arrays h (base s)))"

text \<open>\<^verbatim>\<open>s[i:]\<close>, which panics when \<open>i\<close> is beyond the length.\<close>

definition slice_from :: "slice \<Rightarrow> nat \<Rightarrow> panic + slice" where
  "slice_from s i =
     (if i \<le> len s then Inr (s\<lparr>off := off s + i, len := len s - i, cap := cap s - i\<rparr>)
      else Inl IndexOutOfRange)"

text \<open>Writing the elements \<open>xs\<close> into an array from index \<open>k\<close> on.\<close>

definition list_write :: "'a list \<Rightarrow> nat \<Rightarrow> 'a list \<Rightarrow> 'a list" where
  "list_write arr k xs = take k arr @ xs @ drop (k + length xs) arr"

text \<open>
  The built-in \<^verbatim>\<open>append(s, xs...)\<close>. When the capacity suffices the elements are written into
  the array of \<open>s\<close>, behind its last element, and every slice of that array sees them; else
  a new array is allocated, with the elements of \<open>s\<close> and \<open>xs\<close>. The capacity of the new
  array is the run-time's choice: it is at least the new length, and otherwise given by the
  parameter \<open>grow\<close> (old capacity, new length), over which every theorem quantifies.
\<close>

definition append_slice ::
  "(nat \<Rightarrow> nat \<Rightarrow> nat) \<Rightarrow> heap \<Rightarrow> slice \<Rightarrow> KeyValue list \<Rightarrow> heap \<times> slice" where
  "append_slice grow h s xs =
     (let n = len s + length xs
      in if n \<le> cap s then
           (h\<lparr>arrays := (arrays h)(base s := list_write (arrays h (base s)) (off s + len s) xs)\<rparr>,
            s\<lparr>len := n\<rparr>)
         else
           let c = max n (grow (cap s) n); a = next_array h
           in (h\<lparr>arrays := (arrays h)(a := slice_elems h s @ xs @ replicate (c - n) zeroKeyValue),
                 next_array := a + 1\<rparr>,
               \<lparr>base = a, off = 0, len = n, cap = c\<rparr>))"

text \<open>
  \<^verbatim>\<open>slices.Grow(s, n)\<close> of the Go library:
  \<^verbatim>\<open>if n -= cap(s) - len(s); n > 0 { s = append(s[:cap(s)], make([]S, n)...)[:len(s)] }\<close>.
  (Its panic on a negative \<open>n\<close> cannot happen: \<open>n\<close> is a length.)
\<close>

definition slices_Grow ::
  "(nat \<Rightarrow> nat \<Rightarrow> nat) \<Rightarrow> heap \<Rightarrow> slice \<Rightarrow> nat \<Rightarrow> heap \<times> slice" where
  "slices_Grow grow h s n =
     (if cap s - len s < n then
        let (h', s') = append_slice grow h (s\<lparr>len := cap s\<rparr>)
                         (replicate (n - (cap s - len s)) zeroKeyValue)
        in (h', s'\<lparr>len := len s\<rparr>)
      else (h, s))"

text \<open>\<^verbatim>\<open>slices.Clone(s)\<close> of the Go library: \<^verbatim>\<open>append(s[:0:0], s...)\<close>.\<close>

definition slices_Clone :: "(nat \<Rightarrow> nat \<Rightarrow> nat) \<Rightarrow> heap \<Rightarrow> slice \<Rightarrow> heap \<times> slice" where
  "slices_Clone grow h s = append_slice grow h (s\<lparr>len := 0, cap := 0\<rparr>) (slice_elems h s)"

text \<open>
  The record: the array \<^verbatim>\<open>front\<close> (a list, of length \<open>attributesInlineCount\<close> in every
  well-formed record), the number \<^verbatim>\<open>nFront\<close> of its slots in use, and the slice \<^verbatim>\<open>back\<close>.
\<close>

record log_record =
  front :: "KeyValue list"
  nFront :: nat
  "back" :: slice

definition zero_record :: log_record where
  "zero_record =
     \<lparr>front = replicate attributesInlineCount zeroKeyValue, nFront = 0, back = nil_slice\<rparr>"

text \<open>
  The loop shared by \<^verbatim>\<open>AddAttributes\<close> and \<^verbatim>\<open>SetAttributes\<close>:
  \<^verbatim>\<open>for i = 0; i < len(attrs) && r.nFront < len(r.front); i++\<close>. It returns the final \<open>i\<close>.
\<close>

function fill_front :: "heap \<Rightarrow> slice \<Rightarrow> nat \<Rightarrow> log_record \<Rightarrow> nat \<times> log_record" where
  "fill_front h attrs i r =
     (if i < len attrs \<and> nFront r < length (front r) then
        let a = arrays h (base attrs) ! (off attrs + i)
        in fill_front h attrs (i + 1)
             (r\<lparr>front := (front r)[nFront r := a], nFront := nFront r + 1\<rparr>)
      else (i, r))"
  by pat_completeness auto
termination
  by (relation "measure (\<lambda>(h, attrs, i, r). len attrs - i)") auto

declare fill_front.simps [simp del]

text \<open>
  The methods take the store and the record and return both. The variadic parameter
  \<^verbatim>\<open>attrs\<close> is a slice of the caller.
\<close>

definition AddAttributes ::
  "(nat \<Rightarrow> nat \<Rightarrow> nat) \<Rightarrow> slice \<Rightarrow> heap \<times> log_record \<Rightarrow> panic + heap \<times> log_record" where
  "AddAttributes grow attrs st =
     (let (h, r) = st; (i, r) = fill_front h attrs 0 r
      in pbind (slice_from attrs i) (\<lambda>rest.
           let (h, b) = slices_Grow grow h (back r) (len rest);
               (h, b) = append_slice grow h b (slice_elems h rest)
           in Inr (h, r\<lparr>back := b\<rparr>)))"

definition SetAttributes ::
  "(nat \<Rightarrow> nat \<Rightarrow> nat) \<Rightarrow> slice \<Rightarrow> heap \<times> log_record \<Rightarrow> panic + heap \<times> log_record" where
  "SetAttributes grow attrs st =
     (let (h, r) = st; r = r\<lparr>nFront := 0\<rparr>; (i, r) = fill_front h attrs 0 r
      in pbind (slice_from attrs i) (\<lambda>rest.
           let (h, b) = slices_Clone grow h rest
           in Inr (h, r\<lparr>back := b\<rparr>)))"

definition AttributesLen :: "log_record \<Rightarrow> nat" where
  "AttributesLen r = nFront r + len (back r)"


text \<open>
  \<^verbatim>\<open>WalkAttributes(f)\<close>. The visitor \<open>f\<close> has a state of its own (what the closure captures):
  it takes an attribute and its state, and returns whether to go on and its new state. The
  first loop reads \<^verbatim>\<open>r.front[i]\<close> for \<open>i < r.nFront\<close>, the second ranges over \<^verbatim>\<open>r.back\<close>; both
  return as soon as \<open>f\<close> returns false.
\<close>

function walk_front ::
  "log_record \<Rightarrow> (KeyValue \<Rightarrow> 's \<Rightarrow> bool \<times> 's) \<Rightarrow> nat \<Rightarrow> 's \<Rightarrow> panic + bool \<times> 's" where
  "walk_front r f i s =
     (if i < nFront r then
        if i < length (front r) then
          let (continue, s) = f (front r ! i) s
          in if \<not> continue then Inr (False, s) else walk_front r f (i + 1) s
        else Inl IndexOutOfRange
      else Inr (True, s))"
  by pat_completeness auto
termination
  by (relation "measure (\<lambda>(r, f, i, s). nFront r - i)") auto

declare walk_front.simps [simp del]

fun walk_back :: "(KeyValue \<Rightarrow> 's \<Rightarrow> bool \<times> 's) \<Rightarrow> KeyValue list \<Rightarrow> 's \<Rightarrow> 's" where
  "walk_back f [] s = s"
| "walk_back f (a # as) s =
     (let (continue, s) = f a s in if \<not> continue then s else walk_back f as s)"

definition WalkAttributes ::
  "heap \<Rightarrow> log_record \<Rightarrow> (KeyValue \<Rightarrow> 's \<Rightarrow> bool \<times> 's) \<Rightarrow> 's \<Rightarrow> panic + 's" where
  "WalkAttributes h r f s =
     pbind (walk_front r f 0 s) (\<lambda>(continue, s).
       if \<not> continue then Inr s else Inr (walk_back f (slice_elems h (back r)) s))"

text \<open>
  What a caller observes of a record: the attributes \<^verbatim>\<open>WalkAttributes\<close> passes to a visitor
  that collects them and never stops.
\<close>

definition visited :: "heap \<Rightarrow> log_record \<Rightarrow> panic + KeyValue list" where
  "visited h r = WalkAttributes h r (\<lambda>a seen. (True, seen @ [a])) []"

subsection \<open>Sequences of calls\<close>

fun AddAttributes_all ::
  "(nat \<Rightarrow> nat \<Rightarrow> nat) \<Rightarrow> slice list \<Rightarrow> heap \<times> log_record \<Rightarrow> panic + heap \<times> log_record" where
  "AddAttributes_all grow [] st = Inr st"
| "AddAttributes_all grow (attrs # calls) st =
     pbind (AddAttributes grow attrs st) (AddAttributes_all grow calls)"











subsection \<open>Well-formed slices and records\<close>

text \<open>
  A slice of the program lies within an allocated array (a slice of capacity \<open>0\<close> reads and
  writes nothing, whatever its address). A record has its array of \<open>attributesInlineCount\<close>
  slots, of which at most that many are in use, and a well-formed \<^verbatim>\<open>back\<close>.
\<close>

definition valid_slice :: "heap \<Rightarrow> slice \<Rightarrow> bool" where
  "valid_slice h s =
     (len s \<le> cap s \<and>
      (0 < cap s \<longrightarrow> base s < next_array h \<and> off s + cap s \<le> length (arrays h (base s))))"

definition valid_record :: "heap \<Rightarrow> log_record \<Rightarrow> bool" where
  "valid_record h r =
     (length (front r) = attributesInlineCount \<and> nFront r \<le> attributesInlineCount \<and>
      valid_slice h (back r))"

text \<open>
  For the proofs: \<open>heap_le h h'\<close>, the store has only grown and no array has changed its
  length; \<open>unchanged_outside W h h'\<close>, the arrays of \<open>h\<close> outside \<open>W\<close> have their elements of
  before; \<open>footprint s\<close>, the array a slice can read or write; \<open>container_inv h0 h r\<close>, what
  holds of a record filled by \<^verbatim>\<open>AddAttributes\<close> and \<^verbatim>\<open>SetAttributes\<close> from the arrays of
  the caller's store \<open>h0\<close>;
  \<open>separate h r c\<close>, two records whose overflow slices share no array.
\<close>

definition heap_le :: "heap \<Rightarrow> heap \<Rightarrow> bool" where
  "heap_le h h' =
     (next_array h \<le> next_array h' \<and>
      (\<forall>a. a < next_array h \<longrightarrow> length (arrays h' a) = length (arrays h a)))"

definition unchanged_outside :: "nat set \<Rightarrow> heap \<Rightarrow> heap \<Rightarrow> bool" where
  "unchanged_outside W h h' = (\<forall>a. a < next_array h \<longrightarrow> a \<notin> W \<longrightarrow> arrays h' a = arrays h a)"

definition footprint :: "slice \<Rightarrow> nat set" where
  "footprint s = (if cap s = 0 then {} else {base s})"

definition container_inv :: "heap \<Rightarrow> heap \<Rightarrow> log_record \<Rightarrow> bool" where
  "container_inv h0 h r =
     (heap_le h0 h \<and> unchanged_outside {} h0 h \<and> valid_record h r \<and>
      (nFront r < attributesInlineCount \<longrightarrow> len (back r) = 0) \<and>
      (\<forall>a\<in>footprint (back r). next_array h0 \<le> a))"


subsection \<open>A store and a record for the examples\<close>

text \<open>
  Five arrays of the caller; \<open>example_record\<close> holds eight attributes, five inline and three
  in the array at address 5; \<open>whole a n\<close> is the slice of all \<open>n\<close> elements of the array at
  \<open>a\<close>.
\<close>

definition example_heap :: heap where
  "example_heap =
     \<lparr>arrays = (\<lambda>_. [])
        (1 := [log_Int ''a'' 1, log_Int ''b'' 2],
         2 := [log_Int ''x'' 7, log_Int ''y'' 8],
         3 := [log_Int ''k1'' 1, log_Int ''k2'' 2, log_Int ''k3'' 3, log_Int ''k4'' 4,
               log_Int ''k5'' 5],
         4 := [log_Int ''k6'' 6],
         5 := [log_Int ''k6'' 6, log_Int ''k7'' 7, log_Int ''k8'' 8]),
      next_array = 6\<rparr>"

definition whole :: "nat \<Rightarrow> nat \<Rightarrow> slice" where
  "whole a n = \<lparr>base = a, off = 0, len = n, cap = n\<rparr>"

definition example_record :: log_record where
  "example_record =
     \<lparr>front = [log_Int ''k1'' 1, log_Int ''k2'' 2, log_Int ''k3'' 3, log_Int ''k4'' 4,
               log_Int ''k5'' 5],
      nFront = 5, back = whole 5 3\<rparr>"

definition example_grow :: "nat \<Rightarrow> nat \<Rightarrow> nat" where
  "example_grow c n = 2 * c"

section \<open>Properties of values\<close>

subsection \<open>Constructors and accessors\<close>

lemma take_unat_length:
  "length xs < 2 ^ 64 \<Longrightarrow> take (unat (of_nat (length xs) :: uint64)) xs = xs"
  by (simp add: unat_of_nat take_bit_nat_eq_self)

lemma pbind_Inr [simp]: "pbind (Inr x) f = f x"
  by (simp add: pbind_def)

lemma pbind_Inl [simp]: "pbind (Inl p) f = Inl p"
  by (simp add: pbind_def)

lemma pbind_eq_Inr: "pbind m f = Inr y \<longleftrightarrow> (\<exists>x. m = Inr x \<and> f x = Inr y)"
  by (cases m) auto

lemma GroupValue_loop_set:
  "GroupValue_loop kvs as2 = Inr r \<Longrightarrow> set r \<subseteq> set as2 \<union> set kvs"
proof (induction kvs arbitrary: as2)
  case Nil
  then show ?case by simp
next
  case (Cons a kvs)
  then show ?case by (fastforce simp: pbind_eq_Inr split: if_splits)
qed

lemma GroupValue_shape:
  assumes "GroupValue kvs = Inr g"
  shows "\<exists>kvs'. g = Value (of_nat (length kvs')) (Groupptr kvs') \<and> set kvs' \<subseteq> set kvs"
  using assms GroupValue_loop_set [of kvs "[]"]
  by (auto simp: GroupValue_def pbind_eq_Inr split: if_splits)


lemma constructed_any: "constructed v \<Longrightarrow> any v = AnyKind k \<Longrightarrow> scalar_kind k"
  by (erule constructed.cases)
     (auto simp: StringValue_def IntValue_def Int64Value_def Uint64Value_def Float64Value_def
       BoolValue_def BytesValue_def ListValue_def scalar_kind_def dest: GroupValue_shape)

lemma constructed_list:
  "constructed v \<Longrightarrow> any v = Listptr p \<Longrightarrow> x \<in> set p \<Longrightarrow> constructed x"
  by (erule constructed.cases)
     (auto simp: StringValue_def IntValue_def Int64Value_def Uint64Value_def Float64Value_def
       BoolValue_def BytesValue_def ListValue_def dest: GroupValue_shape)

lemma constructed_group:
  "constructed v \<Longrightarrow> any v = Groupptr p \<Longrightarrow> a \<in> set p \<Longrightarrow> constructed (Val a)"
  by (erule constructed.cases)
     (auto simp: StringValue_def IntValue_def Int64Value_def Uint64Value_def Float64Value_def
       BoolValue_def BytesValue_def ListValue_def dest!: GroupValue_shape)

lemma constructed_isEmptyGroup:
  "constructed v \<Longrightarrow>
   Value_isEmptyGroup v = Inr (Value_Kind v = KindGroup \<and> Value_Group v = Inr [])"
  using constructed_any [of v]
  by (cases v; cases "any v")
     (auto simp: Value_isEmptyGroup_def Value_group_def Value_Group_def scalar_kind_def)

lemma countEmptyGroups_loop_eq:
  "\<forall>a\<in>set kvs. \<exists>b. Value_isEmptyGroup (Val a) = Inr b \<Longrightarrow>
   countEmptyGroups_loop kvs n =
     Inr (n + length (filter (\<lambda>a. Value_isEmptyGroup (Val a) = Inr True) kvs))"
  by (induction kvs arbitrary: n) auto

lemma GroupValue_loop_eq:
  "\<forall>a\<in>set kvs. \<exists>b. Value_isEmptyGroup (Val a) = Inr b \<Longrightarrow>
   GroupValue_loop kvs as2 =
     Inr (as2 @ filter (\<lambda>a. Value_isEmptyGroup (Val a) \<noteq> Inr True) kvs)"
  by (induction kvs arbitrary: as2) auto

lemma GroupValue_eq:
  assumes "\<forall>a\<in>set kvs. \<exists>b. Value_isEmptyGroup (Val a) = Inr b"
  shows "GroupValue kvs =
     (let kvs' = filter (\<lambda>a. Value_isEmptyGroup (Val a) \<noteq> Inr True) kvs
      in Inr (Value (of_nat (length kvs')) (Groupptr kvs')))"
proof -
  let ?e = "\<lambda>a. Value_isEmptyGroup (Val a) = Inr True"
  have "filter (\<lambda>a. \<not> ?e a) kvs = kvs" if "length (filter ?e kvs) = 0"
    using that by (simp add: filter_empty_conv)
  then show ?thesis
    using assms
    by (auto simp: GroupValue_def countEmptyGroups_def countEmptyGroups_loop_eq
        GroupValue_loop_eq Let_def)
qed

lemmas ctor_defs = StringValue_def IntValue_def Int64Value_def Uint64Value_def Float64Value_def
  BoolValue_def BytesValue_def ListValue_def Float64bits_def Float64frombits_def
  log_String_def log_Int64_def log_Int_def log_Uint64_def log_Float64_def log_Bool_def
  log_Bytes_def log_List_def

lemma GroupValue_filter:
  assumes c: "\<forall>a\<in>set kvs. constructed (Val a)" and l: "length kvs < 2 ^ 64"
  shows "\<exists>g. GroupValue kvs = Inr g \<and>
       Value_Group g =
         Inr (filter (\<lambda>a. \<not> (Value_Kind (Val a) = KindGroup \<and> Value_Group (Val a) = Inr [])) kvs)"
proof -
  let ?P = "\<lambda>a. \<not> (Value_Kind (Val a) = KindGroup \<and> Value_Group (Val a) = Inr [])"
  have e: "\<forall>a\<in>set kvs. \<exists>b. Value_isEmptyGroup (Val a) = Inr b"
    using c constructed_isEmptyGroup by blast
  have f: "filter (\<lambda>a. Value_isEmptyGroup (Val a) \<noteq> Inr True) kvs = filter ?P kvs"
    using c by (intro filter_cong) (auto simp: constructed_isEmptyGroup)
  have "length (filter ?P kvs) < 2 ^ 64"
    using l by (meson le_less_trans length_filter_le)
  then have "take (unat (of_nat (length (filter ?P kvs)) :: uint64)) (filter ?P kvs) = filter ?P kvs"
    by (rule take_unat_length)
  then show ?thesis
    using GroupValue_eq [OF e] f by (simp add: Let_def Value_Group_def unsafe_Slice_def)
qed

lemma group_literal:
  "\<exists>g2 g1 g4 g3 g.
      log_Group ''g2'' [] = Inr g2 \<and> log_Group ''g1'' [g2] = Inr g1 \<and>
      log_Group ''g4'' [log_Int ''b'' 2] = Inr g4 \<and> log_Group ''g3'' [g4] = Inr g3 \<and>
      GroupValue [log_Int ''a'' 1, g1, g3] = Inr g \<and>
      Value_Group g = Inr [log_Int ''a'' 1, g3]"
  by (simp add: log_Group_def GroupValue_def countEmptyGroups_def Value_isEmptyGroup_def
      Value_group_def Value_Group_def unsafe_Slice_def ctor_defs)

text \<open>
  Claim C4. \<^verbatim>\<open>GroupValue(members...)\<close> makes one pass over its members: for members built by the
  public constructors (at most \<open>2 ^ 64 - 1\<close> of them, as every Go slice), it returns a group
  whose \<^verbatim>\<open>Group()\<close> is the members that are not an empty group, in their order
  (\<open>filter\<close> looks at the members only, not inside them). In particular
  \<^verbatim>\<open>GroupValue(Int("a",1), Group("g1", Group("g2")), Group("g3", Group("g4", Int("b",2))))\<close>
  reads back as \<^verbatim>\<open>[Int("a",1), Group("g3", Group("g4", Int("b",2)))]\<close>: \<open>g1\<close>, whose only member
  \<open>g2\<close> was removed when \<open>g1\<close> was built, is removed in turn.
\<close>

theorem GroupValue_removes_empty_groups:
  "((\<forall>a\<in>set kvs. constructed (Val a)) \<longrightarrow> length kvs < 2 ^ 64 \<longrightarrow>
     (\<exists>g. GroupValue kvs = Inr g \<and>
       Value_Group g =
         Inr (filter (\<lambda>a. \<not> (Value_Kind (Val a) = KindGroup \<and> Value_Group (Val a) = Inr [])) kvs)))
   \<and> (\<exists>g2 g1 g4 g3 g.
      log_Group ''g2'' [] = Inr g2 \<and> log_Group ''g1'' [g2] = Inr g1 \<and>
      log_Group ''g4'' [log_Int ''b'' 2] = Inr g4 \<and> log_Group ''g3'' [g4] = Inr g3 \<and>
      GroupValue [log_Int ''a'' 1, g1, g3] = Inr g \<and>
      Value_Group g = Inr [log_Int ''a'' 1, g3])"
  using GroupValue_filter [of kvs] group_literal by blast

theorem GroupValue_removes_empty_groups_witness:
  "constructed (Val (log_Int ''a'' 1)) \<and>
   constructed (Val (KeyValue ''g'' (Value 0 (Groupptr [])))) \<and>
   length [log_Int ''a'' 1, KeyValue ''g'' (Value 0 (Groupptr []))] < 2 ^ 64 \<and>
   (\<exists>g. GroupValue [log_Int ''a'' 1, KeyValue ''g'' (Value 0 (Groupptr []))] = Inr g \<and>
        Value_Group g = Inr [log_Int ''a'' 1])"
proof -
  let ?kvs = "[log_Int ''a'' 1, KeyValue ''g'' (Value 0 (Groupptr []))]"
  have c1: "constructed (Val (log_Int ''a'' 1))"
    by (simp add: log_Int_def log_Int64_def constructed.Int64Value)
  have "GroupValue [] = Inr (Value 0 (Groupptr []))"
    by (simp add: GroupValue_def countEmptyGroups_def)
  then have "constructed (Value 0 (Groupptr []))"
    using constructed.GroupValue [of "[]"] by simp
  then have c2: "constructed (Val (KeyValue ''g'' (Value 0 (Groupptr []))))"
    by simp
  have l: "length ?kvs < 2 ^ 64" by simp
  have "\<exists>g. GroupValue ?kvs = Inr g \<and> Value_Group g =
      Inr (filter (\<lambda>a. \<not> (Value_Kind (Val a) = KindGroup \<and> Value_Group (Val a) = Inr [])) ?kvs)"
    using GroupValue_removes_empty_groups [of ?kvs] c1 c2 l by simp
  then have "\<exists>g. GroupValue ?kvs = Inr g \<and> Value_Group g = Inr [log_Int ''a'' 1]"
    by (simp add: Value_Group_def unsafe_Slice_def log_Int_def log_Int64_def Int64Value_def)
  then show ?thesis using c1 c2 l by blast
qed

text \<open>
  Claim C10. Reading a constructed value back with the accessor of its kind returns what
  was given: an \<^verbatim>\<open>int64\<close>, a \<^verbatim>\<open>bool\<close>, a \<^verbatim>\<open>float64\<close> with the same bit pattern, a string, a
  byte sequence, a sequence of values, and a sequence of key-value pairs none of which is
  an empty group. The bound on the lengths is that of every Go string and slice (\<^verbatim>\<open>len\<close> is
  an \<^verbatim>\<open>int\<close>); the members of the group are built by the public constructors.
\<close>

theorem constructor_accessor_roundtrip:
  "Value_Int64 (Int64Value x) = Inr x \<and>
   Value_Bool (BoolValue b) = Inr b \<and>
   (\<exists>f'. Value_Float64 (Float64Value f) = Inr f' \<and> Float64bits f' = Float64bits f) \<and>
   (length s < 2 ^ 64 \<longrightarrow> Value_String (StringValue s) = Inr s) \<and>
   (length bs < 2 ^ 64 \<longrightarrow> Value_Bytes (BytesValue bs) = Inr bs) \<and>
   (length vs < 2 ^ 64 \<longrightarrow> Value_List (ListValue vs) = Inr vs) \<and>
   (length kvs < 2 ^ 64 \<longrightarrow>
      (\<forall>a\<in>set kvs. \<not> (Value_Kind (Val a) = KindGroup \<and> Value_Group (Val a) = Inr [])) \<longrightarrow>
      (\<forall>a\<in>set kvs. constructed (Val a)) \<longrightarrow>
      (\<exists>g. GroupValue kvs = Inr g \<and> Value_Group g = Inr kvs))"
proof (intro conjI impI)
  show "Value_Int64 (Int64Value x) = Inr x"
    by (simp add: Value_Int64_def Int64Value_def)
  show "Value_Bool (BoolValue b) = Inr b"
    by (simp add: Value_Bool_def BoolValue_def Value_bool_def)
  show "\<exists>f'. Value_Float64 (Float64Value f) = Inr f' \<and> Float64bits f' = Float64bits f"
    by (simp add: Value_Float64_def Float64Value_def Value_float_def Float64bits_def
        Float64frombits_def)
  show "Value_String (StringValue s) = Inr s" if "length s < 2 ^ 64"
    using take_unat_length [OF that] by (simp add: StringValue_def unsafe_String_def)
  show "Value_Bytes (BytesValue bs) = Inr bs" if "length bs < 2 ^ 64"
    using take_unat_length [OF that] by (simp add: BytesValue_def Value_Bytes_def unsafe_Slice_def)
  show "Value_List (ListValue vs) = Inr vs" if "length vs < 2 ^ 64"
    using take_unat_length [OF that] by (simp add: ListValue_def Value_List_def unsafe_Slice_def)
  show "\<exists>g. GroupValue kvs = Inr g \<and> Value_Group g = Inr kvs"
    if l: "length kvs < 2 ^ 64"
      and n: "\<forall>a\<in>set kvs. \<not> (Value_Kind (Val a) = KindGroup \<and> Value_Group (Val a) = Inr [])"
      and c: "\<forall>a\<in>set kvs. constructed (Val a)"
  proof -
    have e: "\<forall>a\<in>set kvs. Value_isEmptyGroup (Val a) = Inr False"
      using c n by (auto simp: constructed_isEmptyGroup)
    then have "filter (\<lambda>a. Value_isEmptyGroup (Val a) \<noteq> Inr True) kvs = kvs"
      by (simp add: filter_id_conv)
    moreover have "\<forall>a\<in>set kvs. \<exists>b. Value_isEmptyGroup (Val a) = Inr b"
      using e by blast
    ultimately show ?thesis
      using GroupValue_eq [of kvs] take_unat_length [OF l]
      by (simp add: Let_def Value_Group_def unsafe_Slice_def)
  qed
qed

theorem constructor_accessor_roundtrip_witness:
  "length ''hi'' < 2 ^ 64 \<and> Value_String (StringValue ''hi'') = Inr ''hi'' \<and>
   length [1, 3, 5 :: byte] < 2 ^ 64 \<and> Value_Bytes (BytesValue [1, 3, 5]) = Inr [1, 3, 5] \<and>
   length [Int64Value 1, BoolValue True] < 2 ^ 64 \<and>
   Value_List (ListValue [Int64Value 1, BoolValue True]) = Inr [Int64Value 1, BoolValue True] \<and>
   length [log_Int ''i'' 3, log_Bool ''b'' True] < 2 ^ 64 \<and>
   \<not> (Value_Kind (Val (log_Int ''i'' 3)) = KindGroup \<and> Value_Group (Val (log_Int ''i'' 3)) = Inr []) \<and>
   \<not> (Value_Kind (Val (log_Bool ''b'' True)) = KindGroup \<and>
      Value_Group (Val (log_Bool ''b'' True)) = Inr []) \<and>
   constructed (Val (log_Int ''i'' 3)) \<and> constructed (Val (log_Bool ''b'' True)) \<and>
   (\<exists>g. GroupValue [log_Int ''i'' 3, log_Bool ''b'' True] = Inr g \<and>
        Value_Group g = Inr [log_Int ''i'' 3, log_Bool ''b'' True])"
proof -
  have c: "constructed (Val (log_Int ''i'' 3))" "constructed (Val (log_Bool ''b'' True))"
    by (simp_all add: log_Int_def log_Int64_def log_Bool_def constructed.Int64Value
        constructed.BoolValue)
  have k: "Value_Kind (Val (log_Int ''i'' 3)) \<noteq> KindGroup"
    "Value_Kind (Val (log_Bool ''b'' True)) \<noteq> KindGroup"
    by (simp_all add: ctor_defs)
  show ?thesis
    using constructor_accessor_roundtrip [of _ _ _ "''hi''" "[1, 3, 5]"
        "[Int64Value 1, BoolValue True]" "[log_Int ''i'' 3, log_Bool ''b'' True]"] c k
    by simp
qed

lemma Value_String_constructed:
  assumes "constructed v"
  shows "\<exists>s. Value_String v = Inr s"
  using constructed_any [OF assms]
  by (cases v; cases "any v")
     (auto simp: scalar_kind_def Value_str_def Value_bytes_def Value_list_def Value_group_def)

text \<open>
  Claim C7. On a value built by the public constructors, each typed accessor panics exactly
  when \<^verbatim>\<open>Kind()\<close> is not the accessor's kind, and returns the stored value when it is: a
  \<^verbatim>\<open>bool\<close> is \<open>num = 1\<close>, an integer or float is \<open>num\<close> itself, and \<^verbatim>\<open>Bytes\<close>, \<^verbatim>\<open>List\<close> and
  \<^verbatim>\<open>Group\<close> return the first \<open>num\<close> elements of the backing storage the value points to
  (\<^verbatim>\<open>unsafe.Slice(sp, v.num)\<close>). On a mismatch the scalar accessors panic with the kind
  found and the kind wanted, the three others with their "bad kind" message; no accessor
  returns a value of another kind or a default. \<^verbatim>\<open>String()\<close> returns a string and does not
  panic. \<^verbatim>\<open>Kind()\<close> has no panic in the source: \<open>Value_Kind\<close> returns a \<open>Kind\<close> for every value.
\<close>

theorem accessors_panic_iff_kind_mismatch:
  assumes "constructed v"
  shows "((\<exists>p. Value_Bool v = Inl p) \<longleftrightarrow> Value_Kind v \<noteq> KindBool) \<and>
         ((\<exists>p. Value_Int64 v = Inl p) \<longleftrightarrow> Value_Kind v \<noteq> KindInt64) \<and>
         ((\<exists>p. Value_Uint64 v = Inl p) \<longleftrightarrow> Value_Kind v \<noteq> KindUint64) \<and>
         ((\<exists>p. Value_Float64 v = Inl p) \<longleftrightarrow> Value_Kind v \<noteq> KindFloat64) \<and>
         ((\<exists>p. Value_Bytes v = Inl p) \<longleftrightarrow> Value_Kind v \<noteq> KindBytes) \<and>
         ((\<exists>p. Value_List v = Inl p) \<longleftrightarrow> Value_Kind v \<noteq> KindList) \<and>
         ((\<exists>p. Value_Group v = Inl p) \<longleftrightarrow> Value_Kind v \<noteq> KindGroup) \<and>
         (Value_Kind v = KindBool \<longrightarrow> Value_Bool v = Inr (num v = 1)) \<and>
         (Value_Kind v = KindInt64 \<longrightarrow> Value_Int64 v = Inr (num v)) \<and>
         (Value_Kind v = KindUint64 \<longrightarrow> Value_Uint64 v = Inr (num v)) \<and>
         (Value_Kind v = KindFloat64 \<longrightarrow> Value_Float64 v = Inr (num v)) \<and>
         (Value_Kind v = KindBytes \<longrightarrow>
            (\<exists>bs. any v = Bytesptr bs \<and> Value_Bytes v = Inr (take (unat (num v)) bs))) \<and>
         (Value_Kind v = KindList \<longrightarrow>
            (\<exists>vs. any v = Listptr vs \<and> Value_List v = Inr (take (unat (num v)) vs))) \<and>
         (Value_Kind v = KindGroup \<longrightarrow>
            (\<exists>kvs. any v = Groupptr kvs \<and> Value_Group v = Inr (take (unat (num v)) kvs))) \<and>
         (Value_Kind v \<noteq> KindBool \<longrightarrow> Value_Bool v = Inl (KindMismatch (Value_Kind v) KindBool)) \<and>
         (Value_Kind v \<noteq> KindInt64 \<longrightarrow> Value_Int64 v = Inl (KindMismatch (Value_Kind v) KindInt64)) \<and>
         (Value_Kind v \<noteq> KindUint64 \<longrightarrow>
            Value_Uint64 v = Inl (KindMismatch (Value_Kind v) KindUint64)) \<and>
         (Value_Kind v \<noteq> KindFloat64 \<longrightarrow>
            Value_Float64 v = Inl (KindMismatch (Value_Kind v) KindFloat64)) \<and>
         (Value_Kind v \<noteq> KindBytes \<longrightarrow> Value_Bytes v = Inl (AccessorBadKind ''Bytes'')) \<and>
         (Value_Kind v \<noteq> KindList \<longrightarrow> Value_List v = Inl (AccessorBadKind ''List'')) \<and>
         (Value_Kind v \<noteq> KindGroup \<longrightarrow> Value_Group v = Inl (AccessorBadKind ''Group'')) \<and>
         (\<exists>s. Value_String v = Inr s)"
proof -
  have k: "scalar_kind k" if "any v = AnyKind k" for k
    using constructed_any [OF assms that] .
  have scal: "((\<exists>p. Value_Bool v = Inl p) \<longleftrightarrow> Value_Kind v \<noteq> KindBool) \<and>
         ((\<exists>p. Value_Int64 v = Inl p) \<longleftrightarrow> Value_Kind v \<noteq> KindInt64) \<and>
         ((\<exists>p. Value_Uint64 v = Inl p) \<longleftrightarrow> Value_Kind v \<noteq> KindUint64) \<and>
         ((\<exists>p. Value_Float64 v = Inl p) \<longleftrightarrow> Value_Kind v \<noteq> KindFloat64)"
    by (simp add: Value_Bool_def Value_Int64_def Value_Uint64_def Value_Float64_def Let_def)
  have ptr: "((\<exists>p. Value_Bytes v = Inl p) \<longleftrightarrow> Value_Kind v \<noteq> KindBytes) \<and>
         ((\<exists>p. Value_List v = Inl p) \<longleftrightarrow> Value_Kind v \<noteq> KindList) \<and>
         ((\<exists>p. Value_Group v = Inl p) \<longleftrightarrow> Value_Kind v \<noteq> KindGroup)"
    using k by (cases "any v") (auto simp: Value_Bytes_def Value_List_def Value_Group_def scalar_kind_def)
  have ok: "(Value_Kind v = KindBool \<longrightarrow> Value_Bool v = Inr (num v = 1)) \<and>
         (Value_Kind v = KindInt64 \<longrightarrow> Value_Int64 v = Inr (num v)) \<and>
         (Value_Kind v = KindUint64 \<longrightarrow> Value_Uint64 v = Inr (num v)) \<and>
         (Value_Kind v = KindFloat64 \<longrightarrow> Value_Float64 v = Inr (num v))"
    by (simp add: Value_Bool_def Value_Int64_def Value_Uint64_def Value_Float64_def Let_def
        Value_bool_def Value_float_def Float64frombits_def)
  have ok2: "(Value_Kind v = KindBytes \<longrightarrow>
            (\<exists>bs. any v = Bytesptr bs \<and> Value_Bytes v = Inr (take (unat (num v)) bs))) \<and>
         (Value_Kind v = KindList \<longrightarrow>
            (\<exists>vs. any v = Listptr vs \<and> Value_List v = Inr (take (unat (num v)) vs))) \<and>
         (Value_Kind v = KindGroup \<longrightarrow>
            (\<exists>kvs. any v = Groupptr kvs \<and> Value_Group v = Inr (take (unat (num v)) kvs)))"
    using k
    by (cases "any v")
       (auto simp: Value_Bytes_def Value_List_def Value_Group_def scalar_kind_def unsafe_Slice_def)
  have bad: "(Value_Kind v \<noteq> KindBool \<longrightarrow> Value_Bool v = Inl (KindMismatch (Value_Kind v) KindBool)) \<and>
         (Value_Kind v \<noteq> KindInt64 \<longrightarrow> Value_Int64 v = Inl (KindMismatch (Value_Kind v) KindInt64)) \<and>
         (Value_Kind v \<noteq> KindUint64 \<longrightarrow>
            Value_Uint64 v = Inl (KindMismatch (Value_Kind v) KindUint64)) \<and>
         (Value_Kind v \<noteq> KindFloat64 \<longrightarrow>
            Value_Float64 v = Inl (KindMismatch (Value_Kind v) KindFloat64))"
    by (simp add: Value_Bool_def Value_Int64_def Value_Uint64_def Value_Float64_def Let_def)
  have bad2: "(Value_Kind v \<noteq> KindBytes \<longrightarrow> Value_Bytes v = Inl (AccessorBadKind ''Bytes'')) \<and>
         (Value_Kind v \<noteq> KindList \<longrightarrow> Value_List v = Inl (AccessorBadKind ''List'')) \<and>
         (Value_Kind v \<noteq> KindGroup \<longrightarrow> Value_Group v = Inl (AccessorBadKind ''Group''))"
    using k by (cases "any v") (auto simp: Value_Bytes_def Value_List_def Value_Group_def scalar_kind_def)
  have str: "\<exists>s. Value_String v = Inr s"
    by (rule Value_String_constructed [OF assms])
  from scal ptr ok ok2 bad bad2 str show ?thesis
    by (elim conjE) (intro conjI; assumption)
qed

theorem accessors_panic_iff_kind_mismatch_witness:
  "constructed (Int64Value 5) \<and> Value_Kind (Int64Value 5) = KindInt64 \<and>
   Value_Int64 (Int64Value 5) = Inr 5 \<and>
   (\<exists>p. Value_Bool (Int64Value 5) = Inl p) \<and> (\<exists>p. Value_Group (Int64Value 5) = Inl p) \<and>
   (\<exists>s. Value_String (Int64Value 5) = Inr s) \<and>
   constructed (BytesValue [1, 2, 3]) \<and> Value_Kind (BytesValue [1, 2, 3]) = KindBytes \<and>
   Value_Bytes (BytesValue [1, 2, 3]) = Inr [1, 2, 3] \<and>
   Value_Int64 (BytesValue [1, 2, 3]) = Inl (KindMismatch KindBytes KindInt64) \<and>
   Value_List (BytesValue [1, 2, 3]) = Inl (AccessorBadKind ''List'')"
proof -
  have c: "constructed (Int64Value 5)"
    by (rule constructed.Int64Value)
  have k: "Value_Kind (Int64Value 5) = KindInt64" "num (Int64Value 5) = 5"
    by (simp_all add: Int64Value_def)
  have cb: "constructed (BytesValue [1, 2, 3])"
    by (rule constructed.BytesValue)
  have kb: "Value_Kind (BytesValue [1, 2, 3]) = KindBytes" "num (BytesValue [1, 2, 3]) = 3"
    "any (BytesValue [1, 2, 3]) = Bytesptr [1, 2, 3]"
    by (simp_all add: BytesValue_def)
  have i: "Value_Int64 (Int64Value 5) = Inr 5 \<and>
   (\<exists>p. Value_Bool (Int64Value 5) = Inl p) \<and> (\<exists>p. Value_Group (Int64Value 5) = Inl p) \<and>
   (\<exists>s. Value_String (Int64Value 5) = Inr s)"
    using accessors_panic_iff_kind_mismatch [OF c] k by simp
  have b: "Value_Bytes (BytesValue [1, 2, 3]) = Inr [1, 2, 3] \<and>
   Value_Int64 (BytesValue [1, 2, 3]) = Inl (KindMismatch KindBytes KindInt64) \<and>
   Value_List (BytesValue [1, 2, 3]) = Inl (AccessorBadKind ''List'')"
    using accessors_panic_iff_kind_mismatch [OF cb] kb by simp
  show ?thesis
    using c k(1) cb kb(1) i b by (simp del: Value_Kind.simps)
qed

subsection \<open>The comparison of \<^verbatim>\<open>float64\<close> on bit patterns\<close>

lemma mask_numerals:
  "(0x7FF :: uint64) = mask 11" "(0xFFFFFFFFFFFFF :: uint64) = mask 52"
  "(0x7FFFFFFFFFFFFFFF :: uint64) = mask 63"
  by (simp_all add: mask_eq_exp_minus_1)

lemma float64_bits_eqI:
  fixes x y :: uint64
  assumes s: "bit x 63 = bit y 63"
    and e: "take_bit 11 (drop_bit 52 x) = take_bit 11 (drop_bit 52 y)"
    and f: "take_bit 52 x = take_bit 52 y"
  shows "x = y"
proof (rule bit_eqI)
  fix n
  assume "possible_bit TYPE(uint64) n"
  then have n: "n < 64" by (simp add: possible_bit_def)
  consider "n < 52" | "52 \<le> n" "n < 63" | "n = 63" using n by linarith
  then show "bit x n = bit y n"
  proof cases
    case 1
    have "bit (take_bit 52 x) n = bit (take_bit 52 y) n" using f by simp
    then show ?thesis using 1 by (simp add: bit_take_bit_iff)
  next
    case 2
    have "bit (take_bit 11 (drop_bit 52 x)) (n - 52) = bit (take_bit 11 (drop_bit 52 y)) (n - 52)"
      using e by simp
    moreover have "n - 52 < 11" using 2 by simp
    ultimately show ?thesis using 2 by (simp add: bit_take_bit_iff bit_drop_bit_eq)
  next
    case 3
    then show ?thesis using s by simp
  qed
qed

lemma float64_frac_bound: "0 \<le> float64_frac x \<and> float64_frac x < 2 ^ 52"
proof -
  have "float64_frac x = take_bit 52 (uint x)"
    unfolding float64_frac_def mask_numerals
    by (simp add: take_bit_eq_mask [symmetric] unsigned_take_bit_eq)
  then show ?thesis
    using take_bit_int_less_exp [of 52 "uint x"] by simp
qed

lemma float64_exp_bound: "0 \<le> float64_exp x \<and> float64_exp x < 2 ^ 11"
proof -
  have "float64_exp x = take_bit 11 (uint (drop_bit 52 x))"
    unfolding float64_exp_def mask_numerals
    by (simp add: take_bit_eq_mask [symmetric] unsigned_take_bit_eq)
  then show ?thesis
    using take_bit_int_less_exp [of 11 "uint (drop_bit 52 x)"] by simp
qed


lemma float64_fields_eqI:
  assumes s: "float64_sign x = float64_sign y" and e: "float64_exp x = float64_exp y"
    and f: "float64_frac x = float64_frac y"
  shows "x = y"
proof (rule float64_bits_eqI)
  show "bit x 63 = bit y 63"
    using s by (simp only: float64_sign_def)
  have "drop_bit 52 x AND mask 11 = drop_bit 52 y AND mask 11"
    using e unfolding float64_exp_def mask_numerals by (simp only: word_uint_eq_iff)
  then show "take_bit 11 (drop_bit 52 x) = take_bit 11 (drop_bit 52 y)"
    by (simp only: take_bit_eq_mask)
  have "x AND mask 52 = y AND mask 52"
    using f unfolding float64_frac_def mask_numerals by (simp only: word_uint_eq_iff)
  then show "take_bit 52 x = take_bit 52 y"
    by (simp only: take_bit_eq_mask)
qed

lemma float64_mag_nonneg: "0 \<le> float64_mag x"
  using float64_frac_bound [of x] by (simp add: float64_mag_def)

lemma float64_mag_zero: "float64_mag x = 0 \<longleftrightarrow> float64_exp x = 0 \<and> float64_frac x = 0"
  using float64_frac_bound [of x] by (auto simp: float64_mag_def)

lemma normal_mag_inj:
  fixes f f' :: int and e e' :: nat
  assumes "0 \<le> f" "f < 2 ^ 52" "0 \<le> f'" "f' < 2 ^ 52" "e \<le> e'"
    and eq: "(2 ^ 52 + f) * 2 ^ e = (2 ^ 52 + f') * 2 ^ e'"
  shows "e = e' \<and> f = f'"
proof -
  obtain d where d: "e' = e + d" using \<open>e \<le> e'\<close> le_Suc_ex by blast
  have "(2 ^ 52 + f) * 2 ^ e = ((2 ^ 52 + f') * 2 ^ d) * 2 ^ e"
    using eq d by (simp add: power_add mult.assoc mult.commute)
  then have m: "2 ^ 52 + f = (2 ^ 52 + f') * 2 ^ d" by simp
  have "d = 0"
  proof (rule ccontr)
    assume "d \<noteq> 0"
    then have "(2::int) ^ d \<ge> 2" by (metis self_le_ge2_pow power_increasing One_nat_def Suc_leI neq0_conv one_le_numeral power_one_right)
    then have "(2 ^ 52 + f') * 2 ^ d \<ge> (2 ^ 52 + f') * 2"
      using assms by (intro mult_left_mono) auto
    then show False using m assms by simp
  qed
  then show ?thesis using m d by simp
qed

lemma float64_mag_inj:
  assumes eq: "float64_mag x = float64_mag y"
  shows "float64_exp x = float64_exp y \<and> float64_frac x = float64_frac y"
proof -
  note hx = float64_frac_bound [of x] float64_exp_bound [of x]
  note hy = float64_frac_bound [of y] float64_exp_bound [of y]
  have big: "(2 ^ 52 + f) * 2 ^ nat e \<ge> (2 ^ 53 :: int)" if "0 \<le> f" "0 < e" for f e :: int
  proof -
    have "(2::int) ^ nat e \<ge> 2 ^ 1"
      using that by (intro power_increasing) auto
    then have "(2 ^ 52 + f) * 2 ^ nat e \<ge> (2 ^ 52 + f) * 2"
      using that by (intro mult_left_mono) auto
    then show ?thesis using that by simp
  qed
  consider "float64_exp x = 0" "float64_exp y = 0"
    | "float64_exp x = 0" "float64_exp y \<noteq> 0"
    | "float64_exp x \<noteq> 0" "float64_exp y = 0"
    | "float64_exp x \<noteq> 0" "float64_exp y \<noteq> 0" by blast
  then show ?thesis
  proof cases
    case 1
    then show ?thesis using eq by (simp add: float64_mag_def)
  next
    case 2
    then have "float64_mag y \<ge> 2 ^ 53"
      using big [of "float64_frac y" "float64_exp y"] hy by (simp add: float64_mag_def)
    moreover have "float64_mag x < 2 ^ 53"
      using 2 hx by (simp add: float64_mag_def)
    ultimately show ?thesis using eq by simp
  next
    case 3
    then have "float64_mag x \<ge> 2 ^ 53"
      using big [of "float64_frac x" "float64_exp x"] hx by (simp add: float64_mag_def)
    moreover have "float64_mag y < 2 ^ 53"
      using 3 hy by (simp add: float64_mag_def)
    ultimately show ?thesis using eq by simp
  next
    case 4
    then have m: "(2 ^ 52 + float64_frac x) * 2 ^ nat (float64_exp x)
        = (2 ^ 52 + float64_frac y) * 2 ^ nat (float64_exp y)"
      using eq by (simp add: float64_mag_def)
    have "nat (float64_exp x) = nat (float64_exp y) \<and> float64_frac x = float64_frac y"
    proof (cases "nat (float64_exp x) \<le> nat (float64_exp y)")
      case True
      then show ?thesis
        using normal_mag_inj [OF _ _ _ _ True m] hx hy by simp
    next
      case False
      then have le: "nat (float64_exp y) \<le> nat (float64_exp x)" by simp
      show ?thesis
        using normal_mag_inj [OF _ _ _ _ le m [symmetric]] hx hy by simp
    qed
    then show ?thesis using hx hy by arith
  qed
qed

lemma float64_zero_bits:
  "x AND 0x7FFFFFFFFFFFFFFF = 0 \<longleftrightarrow> float64_exp x = 0 \<and> float64_frac x = 0"
proof
  assume z: "x AND 0x7FFFFFFFFFFFFFFF = 0"
  have b: "\<not> bit x n" if "n < 63" for n
  proof -
    have "bit (x AND mask 63) n = False" using z by (simp add: mask_numerals)
    then show ?thesis using that by (simp add: bit_and_iff bit_mask_iff)
  qed
  have "drop_bit 52 x AND mask 11 = 0"
    by (rule bit_eqI) (auto simp: bit_and_iff bit_mask_iff bit_drop_bit_eq b)
  moreover have "x AND mask 52 = 0"
    by (rule bit_eqI) (auto simp: bit_and_iff bit_mask_iff b)
  ultimately show "float64_exp x = 0 \<and> float64_frac x = 0"
    by (simp add: float64_exp_def float64_frac_def mask_numerals)
next
  assume "float64_exp x = 0 \<and> float64_frac x = 0"
  then have e: "drop_bit 52 x AND mask 11 = 0" and f: "x AND mask 52 = 0"
    by (simp_all add: float64_exp_def float64_frac_def mask_numerals unsigned_eq_0_iff)
  have "x AND mask 63 = 0"
  proof (rule bit_eqI)
    fix n
    assume "possible_bit TYPE(uint64) n"
    show "bit (x AND mask 63) n = bit (0 :: uint64) n"
    proof (cases "n < 52")
      case True
      have "bit (x AND mask 52) n = False" using f by simp
      then show ?thesis using True by (simp add: bit_and_iff bit_mask_iff)
    next
      case False
      have "bit (drop_bit 52 x AND mask 11) (n - 52) = False" using e by simp
      then show ?thesis using False by (auto simp: bit_and_iff bit_mask_iff bit_drop_bit_eq)
    qed
  qed
  then show "x AND 0x7FFFFFFFFFFFFFFF = 0" by (simp add: mask_numerals)
qed

lemma float64_eq_bits:
  "float64_eq x y \<longleftrightarrow>
     \<not> float64_isNaN x \<and> \<not> float64_isNaN y \<and>
     (x = y \<or> (x AND 0x7FFFFFFFFFFFFFFF = 0 \<and> y AND 0x7FFFFFFFFFFFFFFF = 0))"
proof (cases "float64_isNaN x \<or> float64_isNaN y")
  case True
  then show ?thesis by (auto simp: float64_eq_def)
next
  case nn: False
  show ?thesis
  proof (cases "float64_isInf x \<or> float64_isInf y")
    case True
    have "x = y" if "float64_isInf x" "float64_isInf y" "float64_sign x = float64_sign y"
      using that by (intro float64_fields_eqI) (simp_all add: float64_isInf_def)
    moreover have "\<not> (x AND 0x7FFFFFFFFFFFFFFF = 0 \<and> y AND 0x7FFFFFFFFFFFFFFF = 0)"
      using True by (auto simp: float64_zero_bits float64_isInf_def)
    ultimately show ?thesis
      using True nn by (auto simp: float64_eq_def)
  next
    case False
    have "float64_val x = float64_val y \<longleftrightarrow>
        x = y \<or> (x AND 0x7FFFFFFFFFFFFFFF = 0 \<and> y AND 0x7FFFFFFFFFFFFFFF = 0)"
    proof
      assume v: "float64_val x = float64_val y"
      show "x = y \<or> (x AND 0x7FFFFFFFFFFFFFFF = 0 \<and> y AND 0x7FFFFFFFFFFFFFFF = 0)"
      proof (cases "float64_sign x = float64_sign y")
        case True
        then have "float64_mag x = float64_mag y"
          using v by (auto simp: float64_val_def split: if_splits)
        then show ?thesis
          using float64_mag_inj [of x y] True float64_fields_eqI by blast
      next
        case False
        then have "float64_mag x = 0 \<and> float64_mag y = 0"
          using v float64_mag_nonneg [of x] float64_mag_nonneg [of y]
          by (auto simp: float64_val_def split: if_splits)
        then show ?thesis
          by (simp add: float64_zero_bits float64_mag_zero)
      qed
    next
      assume "x = y \<or> (x AND 0x7FFFFFFFFFFFFFFF = 0 \<and> y AND 0x7FFFFFFFFFFFFFFF = 0)"
      then show "float64_val x = float64_val y"
      proof
        assume "x = y" then show ?thesis by simp
      next
        assume "x AND 0x7FFFFFFFFFFFFFFF = 0 \<and> y AND 0x7FFFFFFFFFFFFFFF = 0"
        then have "float64_mag x = 0 \<and> float64_mag y = 0"
          by (simp add: float64_zero_bits float64_mag_zero)
        then show ?thesis by (simp add: float64_val_def)
      qed
    qed
    then show ?thesis using False nn by (simp add: float64_eq_def)
  qed
qed

subsection \<open>\<^verbatim>\<open>Value.Equal\<close>\<close>

lemma pbind2_sym:
  assumes "\<And>x y. m = Inr x \<Longrightarrow> m' = Inr y \<Longrightarrow> f x y = g y x"
    and "(\<exists>x. m = Inr x) \<or> m = Inl p" and "(\<exists>y. m' = Inr y) \<or> m' = Inl p"
  shows "pbind m (\<lambda>x. pbind m' (\<lambda>y. f x y)) = pbind m' (\<lambda>y. pbind m (\<lambda>x. g y x))"
  using assms by (cases m; cases m') auto

lemma Value_str_cases:
  "Value_Kind v = KindString \<Longrightarrow>
   (\<exists>s. Value_str v = Inr s) \<or> Value_str v = Inl (InterfaceConversion ''log.Kind'' ''log.stringptr'')"
  by (cases "any v") (auto simp: Value_str_def)

lemma Value_bytes_cases:
  "Value_Kind v = KindBytes \<Longrightarrow>
   (\<exists>s. Value_bytes v = Inr s) \<or> Value_bytes v = Inl (InterfaceConversion ''log.Kind'' ''log.bytesptr'')"
  by (cases "any v") (auto simp: Value_bytes_def)

lemma Value_list_cases:
  "Value_Kind v = KindList \<Longrightarrow>
   (\<exists>s. Value_list v = Inr s) \<or> Value_list v = Inl (InterfaceConversion ''log.Kind'' ''log.listptr'')"
  by (cases "any v") (auto simp: Value_list_def)

lemma Value_group_cases:
  "Value_Kind v = KindGroup \<Longrightarrow>
   (\<exists>s. Value_group v = Inr s) \<or> Value_group v = Inl (InterfaceConversion ''log.Kind'' ''log.groupptr'')"
  by (cases "any v") (auto simp: Value_group_def)

lemma sliceEqualFunc_loop_sym:
  "length s1 = length s2 \<Longrightarrow> (\<And>x y. x \<in> set s1 \<Longrightarrow> y \<in> set s2 \<Longrightarrow> eq x y = eq' y x) \<Longrightarrow>
   sliceEqualFunc_loop eq s1 s2 = sliceEqualFunc_loop eq' s2 s1"
proof (induction s1 s2 rule: list_induct2)
  case Nil
  then show ?case by simp
next
  case (Cons x xs y ys)
  have "eq x y = eq' y x" using Cons.prems by simp
  moreover have "sliceEqualFunc_loop eq xs ys = sliceEqualFunc_loop eq' ys xs"
    using Cons by simp
  ultimately show ?case by (simp cong: if_cong)
qed

lemma sliceEqualFunc_sym:
  "(\<And>x y. x \<in> set s1 \<Longrightarrow> y \<in> set s2 \<Longrightarrow> eq x y = eq' y x) \<Longrightarrow>
   sliceEqualFunc s1 s2 eq = sliceEqualFunc s2 s1 eq'"
  using sliceEqualFunc_loop_sym [of s1 s2 eq eq'] by (auto simp: sliceEqualFunc_def)

lemma float64_eq_sym: "float64_eq x y = float64_eq y x"
  by (auto simp: float64_eq_def)

lemma Value_Equal_diff:
  "Value_Kind v \<noteq> Value_Kind w \<Longrightarrow> Value_Equal v w = Inr False"
  by (simp del: Value_Kind.simps add: Value_Equal.simps [of v w] Let_def)

lemma Value_Equal_same:
  assumes "Value_Kind v = c" and "Value_Kind w = c"
  shows "Value_Equal v w = (case c of
           KindInt64 \<Rightarrow> Inr (num v = num w)
         | KindUint64 \<Rightarrow> Inr (num v = num w)
         | KindBool \<Rightarrow> Inr (num v = num w)
         | KindString \<Rightarrow>
             pbind (Value_str v) (\<lambda>s1. pbind (Value_str w) (\<lambda>s2. Inr (s1 = s2)))
         | KindFloat64 \<Rightarrow> Inr (float64_eq (Value_float v) (Value_float w))
         | KindList \<Rightarrow>
             pbind (Value_list v) (\<lambda>l1. pbind (Value_list w) (\<lambda>l2.
               sliceEqualFunc l1 l2 (\<lambda>x y. Value_Equal x y)))
         | KindGroup \<Rightarrow>
             pbind (Value_group v) (\<lambda>g1. pbind (Value_group w) (\<lambda>g2.
               sliceEqualFunc g1 g2 (\<lambda>a b. KeyValue_Equal a b)))
         | KindBytes \<Rightarrow>
             pbind (Value_bytes v) (\<lambda>b1. pbind (Value_bytes w) (\<lambda>b2.
               Inr (bytes_Equal b1 b2)))
         | KindEmpty \<Rightarrow> Inr True
         | KindOther k \<Rightarrow> Inl (BadKind c))"
  unfolding Value_Equal.simps [of v w] Let_def assms by simp

lemma Value_Equal_sym: "Value_Equal v w = Value_Equal w v"
proof (induction "size v" arbitrary: v w rule: less_induct)
  case less
  show ?case
  proof (cases "Value_Kind v = Value_Kind w")
    case False
    then show ?thesis
      using Value_Equal_diff [of v w] Value_Equal_diff [of w v] by (simp del: Value_Kind.simps)
  next
    case True
    obtain c where kv: "Value_Kind v = c" and kw: "Value_Kind w = c"
      using True by blast
    note e1 = Value_Equal_same [OF kv kw] and e2 = Value_Equal_same [OF kw kv]
    show ?thesis
    proof (cases c)
      case KindString
      have "pbind (Value_str v) (\<lambda>s1. pbind (Value_str w) (\<lambda>s2. Inr (s1 = s2)))
          = pbind (Value_str w) (\<lambda>s1. pbind (Value_str v) (\<lambda>s2. Inr (s1 = s2)))"
      proof (rule pbind2_sym)
        show "(\<exists>x. Value_str v = Inr x) \<or> Value_str v = Inl (InterfaceConversion ''log.Kind'' ''log.stringptr'')"
          using kv KindString by (intro Value_str_cases) simp
        show "(\<exists>x. Value_str w = Inr x) \<or> Value_str w = Inl (InterfaceConversion ''log.Kind'' ''log.stringptr'')"
          using kw KindString by (intro Value_str_cases) simp
      qed auto
      then show ?thesis using e1 e2 KindString by simp
    next
      case KindBytes
      have "pbind (Value_bytes v) (\<lambda>s1. pbind (Value_bytes w) (\<lambda>s2. Inr (bytes_Equal s1 s2)))
          = pbind (Value_bytes w) (\<lambda>s1. pbind (Value_bytes v) (\<lambda>s2. Inr (bytes_Equal s1 s2)))"
      proof (rule pbind2_sym)
        show "(\<exists>x. Value_bytes v = Inr x) \<or> Value_bytes v = Inl (InterfaceConversion ''log.Kind'' ''log.bytesptr'')"
          using kv KindBytes by (intro Value_bytes_cases) simp
        show "(\<exists>x. Value_bytes w = Inr x) \<or> Value_bytes w = Inl (InterfaceConversion ''log.Kind'' ''log.bytesptr'')"
          using kw KindBytes by (intro Value_bytes_cases) simp
      qed (auto simp: bytes_Equal_def)
      then show ?thesis using e1 e2 KindBytes by simp
    next
      case KindList
      have h: "sliceEqualFunc l1 l2 (\<lambda>x y. Value_Equal x y) = sliceEqualFunc l2 l1 (\<lambda>x y. Value_Equal x y)"
        if "Value_list v = Inr l1" "Value_list w = Inr l2" for l1 l2
        using that less Value_list_size [of v l1] by (intro sliceEqualFunc_sym) blast
      have "pbind (Value_list v) (\<lambda>l1. pbind (Value_list w) (\<lambda>l2.
               sliceEqualFunc l1 l2 (\<lambda>x y. Value_Equal x y)))
          = pbind (Value_list w) (\<lambda>l1. pbind (Value_list v) (\<lambda>l2.
               sliceEqualFunc l1 l2 (\<lambda>x y. Value_Equal x y)))"
      proof (rule pbind2_sym [OF h])
        show "(\<exists>x. Value_list v = Inr x) \<or> Value_list v = Inl (InterfaceConversion ''log.Kind'' ''log.listptr'')"
          using kv KindList by (intro Value_list_cases) simp
        show "(\<exists>x. Value_list w = Inr x) \<or> Value_list w = Inl (InterfaceConversion ''log.Kind'' ''log.listptr'')"
          using kw KindList by (intro Value_list_cases) simp
      qed
      then show ?thesis using e1 e2 KindList by simp
    next
      case KindGroup
      have h: "sliceEqualFunc g1 g2 (\<lambda>a b. KeyValue_Equal a b) = sliceEqualFunc g2 g1 (\<lambda>a b. KeyValue_Equal a b)"
        if "Value_group v = Inr g1" "Value_group w = Inr g2" for g1 g2
      proof (intro sliceEqualFunc_sym)
        fix a b
        assume "a \<in> set g1" "b \<in> set g2"
        then have "Value_Equal (Val a) (Val b) = Value_Equal (Val b) (Val a)"
          using that less Value_group_size [of v g1 a] by blast
        then show "KeyValue_Equal a b = KeyValue_Equal b a"
          by (simp add: KeyValue_Equal.simps eq_commute)
      qed
      have "pbind (Value_group v) (\<lambda>g1. pbind (Value_group w) (\<lambda>g2.
               sliceEqualFunc g1 g2 (\<lambda>a b. KeyValue_Equal a b)))
          = pbind (Value_group w) (\<lambda>g1. pbind (Value_group v) (\<lambda>g2.
               sliceEqualFunc g1 g2 (\<lambda>a b. KeyValue_Equal a b)))"
      proof (rule pbind2_sym [OF h])
        show "(\<exists>x. Value_group v = Inr x) \<or> Value_group v = Inl (InterfaceConversion ''log.Kind'' ''log.groupptr'')"
          using kv KindGroup by (intro Value_group_cases) simp
        show "(\<exists>x. Value_group w = Inr x) \<or> Value_group w = Inl (InterfaceConversion ''log.Kind'' ''log.groupptr'')"
          using kw KindGroup by (intro Value_group_cases) simp
      qed
      then show ?thesis using e1 e2 KindGroup by simp
    qed (use e1 e2 in \<open>simp_all add: eq_commute float64_eq_sym\<close>)
  qed
qed

lemma sliceEqualFunc_refl:
  "(\<And>x. x \<in> set l \<Longrightarrow> eq x x = Inr (P x)) \<Longrightarrow> sliceEqualFunc l l eq = Inr (list_all P l)"
proof -
  assume a: "\<And>x. x \<in> set l \<Longrightarrow> eq x x = Inr (P x)"
  then have "sliceEqualFunc_loop eq l l = Inr (list_all P l)"
    by (induction l) auto
  then show ?thesis by (simp add: sliceEqualFunc_def)
qed

lemma sliceEqualFunc_total:
  assumes "\<And>x y. x \<in> set s1 \<Longrightarrow> y \<in> set s2 \<Longrightarrow> \<exists>b. eq x y = Inr b"
  shows "\<exists>b. sliceEqualFunc s1 s2 eq = Inr b"
proof (cases "length s1 = length s2")
  case False
  then show ?thesis by (auto simp: sliceEqualFunc_def)
next
  case True
  then have "\<exists>b. sliceEqualFunc_loop eq s1 s2 = Inr b"
    using assms
  proof (induction s1 s2 rule: list_induct2)
    case Nil
    then show ?case by auto
  next
    case (Cons x xs y ys)
    obtain b where "eq x y = Inr b" using Cons.prems by fastforce
    moreover obtain b' where "sliceEqualFunc_loop eq xs ys = Inr b'"
      using Cons by fastforce
    ultimately show ?case by auto
  qed
  then show ?thesis using True by (simp add: sliceEqualFunc_def)
qed

lemma float64_eq_refl: "float64_eq x x = (\<not> float64_isNaN x)"
  by (auto simp: float64_eq_def)

lemma Value_Equal_refl:
  "constructed v \<Longrightarrow> Value_Equal v v = Inr (nan_free v)"
proof (induction "size v" arbitrary: v rule: less_induct)
  case less
  note e = Value_Equal_same [OF refl refl, of v]
  show ?case
  proof (cases "any v")
    case AnyNil
    then show ?thesis using e by (simp add: nan_free.simps [of v])
  next
    case (AnyKind k)
    then have "scalar_kind k" using less.prems constructed_any by blast
    then show ?thesis
      using e AnyKind by (auto simp: nan_free.simps [of v] scalar_kind_def float64_eq_refl)
  next
    case (Stringptr p)
    then show ?thesis using e by (simp add: nan_free.simps [of v] Value_str_def)
  next
    case (Bytesptr p)
    then show ?thesis using e by (simp add: nan_free.simps [of v] Value_bytes_def bytes_Equal_def)
  next
    case (Listptr p)
    define l where "l = unsafe_Slice p (num v)"
    have vl: "Value_list v = Inr l" using Listptr by (simp add: Value_list_def l_def)
    have "Value_Equal x x = Inr (nan_free x)" if "x \<in> set l" for x
    proof -
      have "x \<in> set p" using that by (auto simp: l_def unsafe_Slice_def dest: in_set_takeD)
      then have "constructed x" using less.prems Listptr constructed_list by blast
      then show ?thesis using less.hyps Value_list_size [OF vl that] by blast
    qed
    then have "sliceEqualFunc l l (\<lambda>x y. Value_Equal x y) = Inr (list_all nan_free l)"
      by (rule sliceEqualFunc_refl)
    then show ?thesis using e Listptr vl by (simp add: nan_free.simps [of v])
  next
    case (Groupptr p)
    define g where "g = unsafe_Slice p (num v)"
    have vg: "Value_group v = Inr g" using Groupptr by (simp add: Value_group_def g_def)
    have "KeyValue_Equal a a = Inr (nan_free (Val a))" if "a \<in> set g" for a
    proof -
      have "a \<in> set p" using that by (auto simp: g_def unsafe_Slice_def dest: in_set_takeD)
      then have "constructed (Val a)" using less.prems Groupptr constructed_group by blast
      then have "Value_Equal (Val a) (Val a) = Inr (nan_free (Val a))"
        using less.hyps Value_group_size [OF vg that] by blast
      then show ?thesis by (simp add: KeyValue_Equal.simps)
    qed
    then have "sliceEqualFunc g g (\<lambda>a b. KeyValue_Equal a b) = Inr (list_all (\<lambda>a. nan_free (Val a)) g)"
      by (rule sliceEqualFunc_refl)
    then show ?thesis using e Groupptr vg by (simp add: nan_free.simps [of v])
  qed
qed

lemma Value_Equal_total:
  "constructed v \<Longrightarrow> constructed w \<Longrightarrow> \<exists>b. Value_Equal v w = Inr b"
proof (induction "size v" arbitrary: v w rule: less_induct)
  case less
  show ?case
  proof (cases "Value_Kind v = Value_Kind w")
    case False
    then show ?thesis using Value_Equal_diff by blast
  next
    case True
    note e = Value_Equal_same [OF True refl]
    show ?thesis
    proof (cases "any v")
      case AnyNil
      then show ?thesis using e True by auto
    next
      case (AnyKind k)
      then have "scalar_kind k" using less.prems constructed_any by blast
      then show ?thesis using e True AnyKind by (auto simp: scalar_kind_def)
    next
      case (Stringptr p)
      moreover have "\<exists>q. any w = Stringptr q"
        using True Stringptr constructed_any [OF less.prems(2)]
        by (cases "any w") (auto simp: scalar_kind_def)
      ultimately show ?thesis using e True by (auto simp: Value_str_def)
    next
      case (Bytesptr p)
      moreover have "\<exists>q. any w = Bytesptr q"
        using True Bytesptr constructed_any [OF less.prems(2)]
        by (cases "any w") (auto simp: scalar_kind_def)
      ultimately show ?thesis using e True by (auto simp: Value_bytes_def)
    next
      case (Listptr p)
      obtain q where q: "any w = Listptr q"
        using True Listptr constructed_any [OF less.prems(2)]
        by (cases "any w") (auto simp: scalar_kind_def)
      define l1 where "l1 = unsafe_Slice p (num v)"
      define l2 where "l2 = unsafe_Slice q (num w)"
      have vl: "Value_list v = Inr l1" "Value_list w = Inr l2"
        using Listptr q by (simp_all add: Value_list_def l1_def l2_def)
      have "\<exists>b. Value_Equal x y = Inr b" if "x \<in> set l1" "y \<in> set l2" for x y
      proof -
        have "x \<in> set p" "y \<in> set q"
          using that by (auto simp: l1_def l2_def unsafe_Slice_def dest: in_set_takeD)
        then have "constructed x" "constructed y"
          using less.prems Listptr q constructed_list by blast+
        then show ?thesis using less.hyps Value_list_size [OF vl(1) that(1)] by blast
      qed
      then have "\<exists>b. sliceEqualFunc l1 l2 (\<lambda>x y. Value_Equal x y) = Inr b"
        by (rule sliceEqualFunc_total)
      then show ?thesis using e True Listptr vl by simp
    next
      case (Groupptr p)
      obtain q where q: "any w = Groupptr q"
        using True Groupptr constructed_any [OF less.prems(2)]
        by (cases "any w") (auto simp: scalar_kind_def)
      define g1 where "g1 = unsafe_Slice p (num v)"
      define g2 where "g2 = unsafe_Slice q (num w)"
      have vg: "Value_group v = Inr g1" "Value_group w = Inr g2"
        using Groupptr q by (simp_all add: Value_group_def g1_def g2_def)
      have "\<exists>r. KeyValue_Equal a b = Inr r" if "a \<in> set g1" "b \<in> set g2" for a b
      proof -
        have "a \<in> set p" "b \<in> set q"
          using that by (auto simp: g1_def g2_def unsafe_Slice_def dest: in_set_takeD)
        then have "constructed (Val a)" "constructed (Val b)"
          using less.prems Groupptr q constructed_group by blast+
        then have "\<exists>r. Value_Equal (Val a) (Val b) = Inr r"
          using less.hyps Value_group_size [OF vg(1) that(1)] by blast
        then show ?thesis by (auto simp: KeyValue_Equal.simps)
      qed
      then have "\<exists>b. sliceEqualFunc g1 g2 (\<lambda>a b. KeyValue_Equal a b) = Inr b"
        by (rule sliceEqualFunc_total)
      then show ?thesis using e True Groupptr vg by simp
    qed
  qed
qed



text \<open>
  Claim C3 (as amended). \<^verbatim>\<open>Value.Equal\<close> on values built by the public constructors returns
  a boolean and does not panic; it is symmetric; two values of different kinds are not
  equal; two values of kind \<^verbatim>\<open>KindEmpty\<close> are equal. It is reflexive exactly on the values
  that hold no NaN: \<open>v\<close> is equal to itself if and only if \<open>nan_free v\<close>, since the
  \<^verbatim>\<open>KindFloat64\<close> branch compares \<^verbatim>\<open>v.float() == w.float()\<close>.
\<close>

theorem Value_Equal_symmetric_reflexive_without_NaN:
  assumes "constructed v" and "constructed w"
  shows "(\<exists>b. Value_Equal v w = Inr b) \<and>
         Value_Equal v w = Value_Equal w v \<and>
         Value_Equal v v = Inr (nan_free v) \<and>
         (Value_Kind v \<noteq> Value_Kind w \<longrightarrow> Value_Equal v w = Inr False) \<and>
         (Value_Kind v = KindEmpty \<longrightarrow> Value_Kind w = KindEmpty \<longrightarrow> Value_Equal v w = Inr True)"
proof (intro conjI impI)
  show "\<exists>b. Value_Equal v w = Inr b"
    using assms by (rule Value_Equal_total)
  show "Value_Equal v w = Value_Equal w v"
    by (rule Value_Equal_sym)
  show "Value_Equal v v = Inr (nan_free v)"
    using assms(1) by (rule Value_Equal_refl)
  show "Value_Equal v w = Inr False" if "Value_Kind v \<noteq> Value_Kind w"
    using that by (rule Value_Equal_diff)
  show "Value_Equal v w = Inr True" if "Value_Kind v = KindEmpty" "Value_Kind w = KindEmpty"
    using Value_Equal_same [OF that] by simp
qed

theorem Value_Equal_symmetric_reflexive_without_NaN_witness:
  "constructed (ListValue [Int64Value 1, StringValue ''hi'']) \<and>
   constructed (Value 0 AnyNil) \<and>
   Value_Equal (ListValue [Int64Value 1, StringValue ''hi'']) (Value 0 AnyNil) = Inr False \<and>
   Value_Equal (Value 0 AnyNil) (ListValue [Int64Value 1, StringValue ''hi'']) = Inr False \<and>
   Value_Equal (ListValue [Int64Value 1, StringValue ''hi''])
     (ListValue [Int64Value 1, StringValue ''hi'']) = Inr True"
proof -
  let ?v = "ListValue [Int64Value 1, StringValue ''hi'']"
  have "constructed ?v"
    by (rule constructed.ListValue) (simp add: constructed.Int64Value constructed.StringValue)
  then have c: "constructed ?v" "constructed (Value 0 AnyNil)"
    by (simp_all add: constructed.zero)
  have k: "Value_Kind ?v \<noteq> Value_Kind (Value 0 AnyNil)"
    by (simp add: ListValue_def)
  have n: "nan_free ?v"
    by code_simp
  show ?thesis
    using Value_Equal_symmetric_reflexive_without_NaN [OF c] c k n
    by (auto simp del: Value_Kind.simps)
qed

theorem Value_Equal_reflexive_counterexample:
  "constructed (Float64Value 0xFFF8000000000000) \<and>
   Value_Equal (Float64Value 0xFFF8000000000000) (Float64Value 0xFFF8000000000000) = Inr False"
proof
  show "constructed (Float64Value 0xFFF8000000000000)"
    by (rule constructed.Float64Value)
  show "Value_Equal (Float64Value 0xFFF8000000000000) (Float64Value 0xFFF8000000000000)
      = Inr False"
    by code_simp
qed

text \<open>
  Claim C1 (as amended). On two \<^verbatim>\<open>Float64\<close> values \<^verbatim>\<open>Value.Equal\<close> is the IEEE-754 comparison
  of the two numbers, not the comparison of their bit patterns:
  \<^verbatim>\<open>Float64Value(x).Equal(Float64Value(y))\<close> is true if and only if neither \<open>x\<close> nor \<open>y\<close> is a
  NaN and either the bit patterns are the same or both are a zero (all bits but the sign
  are 0). So a value built from a NaN is not equal to itself, two values built from NaNs
  are never equal, and \<open>+0\<close> and \<open>-0\<close> are equal.
\<close>

theorem Float64_Equal_is_numeric:
  "Value_Equal (Float64Value x) (Float64Value y) =
     Inr (\<not> float64_isNaN x \<and> \<not> float64_isNaN y \<and>
          (x = y \<or> (x AND 0x7FFFFFFFFFFFFFFF = 0 \<and> y AND 0x7FFFFFFFFFFFFFFF = 0)))"
proof -
  have "Value_Kind (Float64Value x) = KindFloat64" "Value_Kind (Float64Value y) = KindFloat64"
    by (simp_all add: Float64Value_def)
  then have "Value_Equal (Float64Value x) (Float64Value y) = Inr (float64_eq x y)"
    using Value_Equal_same [of "Float64Value x" KindFloat64 "Float64Value y"]
    by (simp add: Float64Value_def Value_float_def Float64bits_def Float64frombits_def)
  then show ?thesis
    by (simp only: float64_eq_bits)
qed

theorem Float64_Equal_is_numeric_witness:
  "Value_Equal (Float64Value 0x3FF8000000000000) (Float64Value 0x3FF8000000000000) = Inr True \<and>
   Value_Equal (Float64Value 0x3FF8000000000000) (Float64Value 0x4000000000000000) = Inr False"
proof -
  have n: "\<not> float64_isNaN 0x3FF8000000000000" "\<not> float64_isNaN 0x4000000000000000"
    by code_simp+
  have z: "(0x3FF8000000000000 :: uint64) AND 0x7FFFFFFFFFFFFFFF \<noteq> 0"
    "(0x3FF8000000000000 :: uint64) \<noteq> 0x4000000000000000"
    by simp_all
  show ?thesis
    using Float64_Equal_is_numeric [of "0x3FF8000000000000" "0x3FF8000000000000"]
      Float64_Equal_is_numeric [of "0x3FF8000000000000" "0x4000000000000000"] n z
    by simp
qed

theorem Float64_Equal_bit_pattern_counterexample:
  "Value_Equal (Float64Value 0x7FF8000000000001) (Float64Value 0x7FF8000000000001) = Inr False \<and>
   Value_Equal (Float64Value 0x8000000000000000) (Float64Value 0) = Inr True"
  by code_simp

subsection \<open>\<^verbatim>\<open>Value.String\<close>\<close>

text \<open>
  The constant \<^verbatim>\<open>0.15\<close> of the test is the \<^verbatim>\<open>float64\<close> nearest to \<open>15 / 100\<close>, the bit pattern
  \<open>0x3FC3333333333333\<close>: with \<open>float64_val\<close> the number times \<open>2 ^ 1075\<close>, it lies nearer to
  \<open>15 / 100\<close> than the patterns before and after it, which lie on either side.
\<close>

lemma float64_nearest_0_15:
  "\<bar>100 * float64_val 0x3FC3333333333333 - 15 * 2 ^ 1075\<bar>
     < \<bar>100 * float64_val 0x3FC3333333333332 - 15 * 2 ^ 1075\<bar> \<and>
   \<bar>100 * float64_val 0x3FC3333333333333 - 15 * 2 ^ 1075\<bar>
     < \<bar>100 * float64_val 0x3FC3333333333334 - 15 * 2 ^ 1075\<bar> \<and>
   100 * float64_val 0x3FC3333333333332 < 15 * 2 ^ 1075 \<and>
   15 * 2 ^ 1075 < 100 * float64_val 0x3FC3333333333334"
  by code_simp

text \<open>
  Claim C8. The literal outputs of \<^verbatim>\<open>Value.String()\<close>: \<^verbatim>\<open>StringValue("foo")\<close> gives \<^verbatim>\<open>foo\<close>,
  \<^verbatim>\<open>Int64Value(-3)\<close> gives \<^verbatim>\<open>-3\<close>, \<^verbatim>\<open>Float64Value(0.15)\<close> gives \<^verbatim>\<open>0.15\<close>, \<^verbatim>\<open>BoolValue(true)\<close> gives
  \<^verbatim>\<open>true\<close>, \<^verbatim>\<open>GroupValue(Int("a",1), Bool("b",true))\<close> gives \<^verbatim>\<open>[a=1 b=true]\<close>, and the zero
  \<^verbatim>\<open>Value\<close> gives \<^verbatim>\<open><nil>\<close>.
\<close>

theorem Value_String_literals:
  "Value_String (StringValue ''foo'') = Inr ''foo'' \<and>
   Value_String (Int64Value (- 3)) = Inr ''-3'' \<and>
   Value_String (Float64Value 0x3FC3333333333333) = Inr ''0.15'' \<and>
   Value_String (BoolValue True) = Inr ''true'' \<and>
   pbind (GroupValue [log_Int ''a'' 1, log_Bool ''b'' True]) Value_String = Inr ''[a=1 b=true]'' \<and>
   Value_String (Value 0 AnyNil) = Inr ''<nil>''"
  by code_simp

theorem Value_String_literals_witness:
  "Value_String (Float64Value 0x3FC3333333333333) = Inr ''0.15'' \<and>
   Value_String (Value 0 AnyNil) = Inr ''<nil>''"
  using Value_String_literals by blast

section \<open>Properties of the attribute container\<close>

subsection \<open>Slices\<close>

lemma valid_slice_len: "valid_slice h s \<Longrightarrow> length (slice_elems h s) = len s"
  by (cases "cap s = 0") (auto simp: valid_slice_def slice_elems_def)

lemma valid_slice_cap0: "cap s = 0 \<Longrightarrow> valid_slice h s \<longleftrightarrow> len s = 0"
  by (auto simp: valid_slice_def)

lemma slice_elems_len0 [simp]: "len s = 0 \<Longrightarrow> slice_elems h s = []"
  by (simp add: slice_elems_def)

lemma list_write_Nil [simp]: "list_write arr k [] = arr"
  by (simp add: list_write_def)

lemma length_list_write:
  "k + length xs \<le> length arr \<Longrightarrow> length (list_write arr k xs) = length arr"
  by (simp add: list_write_def)

lemma take_list_write: "k \<le> length arr \<Longrightarrow> take k (list_write arr k xs) = take k arr"
  by (simp add: list_write_def)

lemma slice_list_write:
  assumes "o' + l + length xs \<le> length arr"
  shows "take (l + length xs) (drop o' (list_write arr (o' + l) xs)) = take l (drop o' arr) @ xs"
proof -
  have "drop o' (take (o' + l) arr) = take l (drop o' arr)"
    by (simp add: drop_take)
  moreover have "length (take l (drop o' arr)) = l"
    using assms by simp
  ultimately show ?thesis
    using assms by (simp add: list_write_def)
qed

lemma heap_le_refl [simp]: "heap_le h h"
  by (simp add: heap_le_def)

lemma heap_le_trans: "heap_le h1 h2 \<Longrightarrow> heap_le h2 h3 \<Longrightarrow> heap_le h1 h3"
  by (auto simp: heap_le_def)

lemma unchanged_refl [simp]: "unchanged_outside W h h"
  by (simp add: unchanged_outside_def)


lemma valid_slice_mono: "valid_slice h s \<Longrightarrow> heap_le h h' \<Longrightarrow> valid_slice h' s"
  by (auto simp: valid_slice_def heap_le_def)

lemma slice_elems_unchanged:
  assumes "valid_slice h t" "unchanged_outside W h h'" "footprint t \<inter> W = {}"
  shows "slice_elems h' t = slice_elems h t"
proof (cases "cap t = 0")
  case True
  then show ?thesis using assms(1) by (simp add: valid_slice_def)
next
  case False
  then have "base t < next_array h" "base t \<notin> W"
    using assms by (auto simp: valid_slice_def footprint_def)
  then show ?thesis
    using assms(2) by (simp add: slice_elems_def unchanged_outside_def)
qed

lemma append_slice_inplace:
  "len s + length xs \<le> cap s \<Longrightarrow>
   append_slice g h s xs =
     (h\<lparr>arrays := (arrays h)(base s := list_write (arrays h (base s)) (off s + len s) xs)\<rparr>,
      s\<lparr>len := len s + length xs\<rparr>)"
  by (simp add: append_slice_def)

lemma append_slice_alloc:
  "\<not> len s + length xs \<le> cap s \<Longrightarrow>
   append_slice g h s xs =
     (h\<lparr>arrays := (arrays h)(next_array h :=
          slice_elems h s @ xs @
            replicate (max (len s + length xs) (g (cap s) (len s + length xs)) - (len s + length xs))
              zeroKeyValue),
        next_array := next_array h + 1\<rparr>,
      \<lparr>base = next_array h, off = 0, len = len s + length xs,
       cap = max (len s + length xs) (g (cap s) (len s + length xs))\<rparr>)"
  by (simp add: append_slice_def Let_def)

lemma append_slice_props:
  assumes v: "valid_slice h s" and a: "append_slice g h s xs = (h', s')"
  shows "slice_elems h' s' = slice_elems h s @ xs"
    and "valid_slice h' s'"
    and "len s' = len s + length xs"
    and "heap_le h h'"
    and "unchanged_outside (footprint s) h h'"
    and "(s' = s\<lparr>len := len s + length xs\<rparr> \<and> len s + length xs \<le> cap s) \<or>
         (base s' = next_array h \<and> next_array h < next_array h' \<and> unchanged_outside {} h h')"
proof -
  show "slice_elems h' s' = slice_elems h s @ xs"
  proof (cases "len s + length xs \<le> cap s")
    case True
    show ?thesis
    proof (cases "xs = []")
      case True
      then show ?thesis
        using a v \<open>len s + length xs \<le> cap s\<close>
        by (auto simp: append_slice_inplace slice_elems_def)
    next
      case False
      then have "0 < cap s" using True by (cases xs) auto
      then have "off s + len s + length xs \<le> length (arrays h (base s))"
        using v True by (auto simp: valid_slice_def)
      then show ?thesis
        using a True slice_list_write [of "off s" "len s" xs "arrays h (base s)"]
        by (auto simp: append_slice_inplace slice_elems_def)
    qed
  next
    case False
    then show ?thesis
      using a valid_slice_len [OF v] by (auto simp: append_slice_alloc slice_elems_def)
  qed
  show "valid_slice h' s'"
  proof (cases "len s + length xs \<le> cap s")
    case True
    then show ?thesis
      using a v by (auto simp: append_slice_inplace valid_slice_def length_list_write)
  next
    case False
    then show ?thesis
      using a valid_slice_len [OF v] by (auto simp: append_slice_alloc valid_slice_def)
  qed
  show "len s' = len s + length xs"
    using a by (cases "len s + length xs \<le> cap s")
      (auto simp: append_slice_inplace append_slice_alloc)
  show "heap_le h h'"
  proof (cases "len s + length xs \<le> cap s")
    case True
    have "length (list_write (arrays h (base s)) (off s + len s) xs) = length (arrays h (base s))"
    proof (cases "xs = []")
      case False
      then have "0 < cap s" using True by (cases xs) auto
      then show ?thesis using v True by (intro length_list_write) (auto simp: valid_slice_def)
    qed simp
    then show ?thesis
      using a True by (auto simp: append_slice_inplace heap_le_def)
  next
    case False
    then show ?thesis using a by (auto simp: append_slice_alloc heap_le_def)
  qed
  show "unchanged_outside (footprint s) h h'"
  proof (cases "len s + length xs \<le> cap s")
    case True
    then show ?thesis
      using a by (cases "xs = []")
        (auto simp: append_slice_inplace unchanged_outside_def footprint_def)
  next
    case False
    then show ?thesis using a by (auto simp: append_slice_alloc unchanged_outside_def)
  qed
  show "(s' = s\<lparr>len := len s + length xs\<rparr> \<and> len s + length xs \<le> cap s) \<or>
         (base s' = next_array h \<and> next_array h < next_array h' \<and> unchanged_outside {} h h')"
    using a by (cases "len s + length xs \<le> cap s")
      (auto simp: append_slice_inplace append_slice_alloc unchanged_outside_def)
qed

lemma slices_Grow_all:
  assumes v: "valid_slice h s" and a: "slices_Grow g h s n = (h', s')"
  shows "slice_elems h' s' = slice_elems h s \<and> valid_slice h' s' \<and> len s' = len s \<and>
        len s + n \<le> cap s' \<and> heap_le h h' \<and> unchanged_outside {} h h' \<and>
        (s' = s \<or> (base s' = next_array h \<and> next_array h < next_array h'))"
proof (cases "cap s - len s < n")
  case False
  then show ?thesis
    using a v by (auto simp: slices_Grow_def valid_slice_def)
next
  case True
  let ?s = "s\<lparr>len := cap s\<rparr>"
  let ?z = "replicate (n - (cap s - len s)) zeroKeyValue"
  have vs: "valid_slice h ?s"
    using v by (auto simp: valid_slice_def)
  obtain h1 s1 where ap: "append_slice g h ?s ?z = (h1, s1)"
    by (cases "append_slice g h ?s ?z")
  then have r: "h' = h1" "s' = s1\<lparr>len := len s\<rparr>"
    using a True by (simp_all add: slices_Grow_def)
  note p = append_slice_props [OF vs ap]
  have big: "\<not> len ?s + length ?z \<le> cap ?s"
    using True by simp
  have fresh: "base s1 = next_array h" "next_array h < next_array h1" "unchanged_outside {} h h1"
    using p(6) big by auto
  have l1: "len s1 = cap s + (n - (cap s - len s))"
    using p(3) by simp
  have c1: "len s1 \<le> cap s1"
    "0 < cap s1 \<longrightarrow> base s1 < next_array h1 \<and> off s1 + cap s1 \<le> length (arrays h1 (base s1))"
    using p(2) by (auto simp: valid_slice_def)
  have lenle: "len s \<le> cap s" using v by (simp add: valid_slice_def)
  have e: "slice_elems h1 (s1\<lparr>len := len s\<rparr>) = take (len s) (slice_elems h1 s1)"
    using lenle l1 by (simp add: slice_elems_def min_def)
  have "take (len s) (slice_elems h ?s @ ?z) = slice_elems h s"
  proof -
    have "length (slice_elems h ?s) = cap s"
      using valid_slice_len [OF vs] by simp
    then have "take (len s) (slice_elems h ?s @ ?z) = take (len s) (slice_elems h ?s)"
      using lenle by simp
    also have "\<dots> = slice_elems h s"
      using lenle by (simp add: slice_elems_def min_def)
    finally show ?thesis .
  qed
  then have elems: "slice_elems h' s' = slice_elems h s"
    using e p(1) r by simp
  have valid: "valid_slice h' s'"
    using c1 l1 lenle r True by (auto simp: valid_slice_def)
  have capb: "len s + n \<le> cap s'"
    using c1(1) l1 r True lenle by simp
  show ?thesis
    using elems valid capb p(4) fresh r by simp
qed

lemma slices_Grow_props:
  assumes "valid_slice h s" and "slices_Grow g h s n = (h', s')"
  shows "slice_elems h' s' = slice_elems h s"
    and "valid_slice h' s'"
    and "len s' = len s"
    and "len s + n \<le> cap s'"
    and "heap_le h h'"
    and "unchanged_outside {} h h'"
    and "s' = s \<or> (base s' = next_array h \<and> next_array h < next_array h')"
  using slices_Grow_all [OF assms] by simp_all

lemma slices_Clone_props:
  assumes v: "valid_slice h s" and a: "slices_Clone g h s = (h', s')"
  shows "slice_elems h' s' = slice_elems h s"
    and "valid_slice h' s'"
    and "len s' = len s"
    and "heap_le h h'"
    and "unchanged_outside {} h h'"
    and "cap s' = 0 \<or> (base s' = next_array h \<and> next_array h < next_array h')"
proof -
  let ?s = "s\<lparr>len := 0, cap := 0\<rparr>"
  have vs: "valid_slice h ?s" by (simp add: valid_slice_def)
  have ap: "append_slice g h ?s (slice_elems h s) = (h', s')"
    using a by (simp add: slices_Clone_def)
  note p = append_slice_props [OF vs ap]
  show "slice_elems h' s' = slice_elems h s" using p(1) by simp
  show "valid_slice h' s'" by (rule p(2))
  show "len s' = len s" using p(3) valid_slice_len [OF v] by simp
  show "heap_le h h'" by (rule p(4))
  show "unchanged_outside {} h h'" using p(5) by (simp add: footprint_def)
  show "cap s' = 0 \<or> (base s' = next_array h \<and> next_array h < next_array h')"
    using p(6) by auto
qed

lemma slice_from_elems:
  assumes "valid_slice h s" "k \<le> len s"
  shows "\<exists>t. slice_from s k = Inr t \<and> valid_slice h t \<and> len t = len s - k \<and>
           slice_elems h t = drop k (slice_elems h s) \<and> footprint t \<subseteq> footprint s"
proof -
  let ?t = "s\<lparr>off := off s + k, len := len s - k, cap := cap s - k\<rparr>"
  have "slice_from s k = Inr ?t" using assms by (simp add: slice_from_def)
  moreover have "valid_slice h ?t" using assms by (auto simp: valid_slice_def)
  moreover have "slice_elems h ?t = drop k (slice_elems h s)"
    by (simp add: slice_elems_def drop_take add.commute)
  moreover have "footprint ?t \<subseteq> footprint s" by (auto simp: footprint_def)
  ultimately show ?thesis by simp
qed

subsection \<open>The methods of the record\<close>

lemma slice_elems_nth:
  "valid_slice h s \<Longrightarrow> i < len s \<Longrightarrow> slice_elems h s ! i = arrays h (base s) ! (off s + i)"
  by (auto simp: valid_slice_def slice_elems_def)

lemma fill_front_eq:
  assumes "valid_slice h attrs" and "i \<le> len attrs" and "nFront r \<le> length (front r)"
  shows "fill_front h attrs i r =
     (let k = min (len attrs - i) (length (front r) - nFront r)
      in (i + k,
          r\<lparr>front := take (nFront r) (front r) @ take k (drop i (slice_elems h attrs)) @
                       drop (nFront r + k) (front r),
            nFront := nFront r + k\<rparr>))"
  using assms
proof (induction h attrs i r rule: fill_front.induct)
  case (1 h attrs i r)
  let ?E = "slice_elems h attrs"
  let ?n = "nFront r"
  show ?case
  proof (cases "i < len attrs \<and> nFront r < length (front r)")
    case False
    then have "min (len attrs - i) (length (front r) - nFront r) = 0"
      using "1.prems" by auto
    then show ?thesis
      using False by (subst fill_front.simps) auto
  next
    case True
    define a where "a = arrays h (base attrs) ! (off attrs + i)"
    define r1 where "r1 = r\<lparr>front := (front r)[?n := a], nFront := ?n + 1\<rparr>"
    define k' where "k' = min (len attrs - (i + 1)) (length (front r1) - nFront r1)"
    have ae: "a = ?E ! i"
      using True "1.prems"(1) by (simp add: a_def slice_elems_nth)
    have lenE: "length ?E = len attrs"
      using "1.prems"(1) by (rule valid_slice_len)
    have k: "min (len attrs - i) (length (front r) - ?n) = Suc k'"
      using True by (auto simp: k'_def r1_def min_def)
    have step: "fill_front h attrs i r = fill_front h attrs (i + 1) r1"
      using True by (simp add: fill_front.simps [of h attrs i r] a_def r1_def Let_def)
    have ih: "fill_front h attrs (i + 1) r1 =
        (i + 1 + k',
         r1\<lparr>front := take (nFront r1) (front r1) @ take k' (drop (i + 1) ?E) @
                       drop (nFront r1 + k') (front r1),
            nFront := nFront r1 + k'\<rparr>)"
      using "1.IH" [OF True a_def] True "1.prems"
      by (simp add: r1_def k'_def Let_def a_def)
    have t1: "take (nFront r1) (front r1) = take ?n (front r) @ [a]"
      using True by (simp add: r1_def take_Suc_conv_app_nth)
    have t2: "drop (nFront r1 + k') (front r1) = drop (?n + Suc k') (front r)"
      by (simp add: r1_def)
    have t3: "take (Suc k') (drop i ?E) = a # take k' (drop (i + 1) ?E)"
      using True lenE ae by (simp add: Cons_nth_drop_Suc [symmetric])
    show ?thesis
      unfolding step ih k Let_def t1 t2 t3 by (simp add: r1_def)
  qed
qed

lemma walk_collect:
  assumes "i \<le> nFront r" and "nFront r \<le> length (front r)"
  shows "pbind (walk_front r f i s)
           (\<lambda>(continue, s). if \<not> continue then Inr s else Inr (walk_back f ys s)) =
         Inr (walk_back f (take (nFront r - i) (drop i (front r)) @ ys) s)"
  using assms
proof (induction r f i s rule: walk_front.induct)
  case (1 r f i s)
  show ?case
  proof (cases "i < nFront r")
    case False
    then show ?thesis
      using "1.prems" by (subst walk_front.simps) simp
  next
    case True
    then have il: "i < length (front r)" using "1.prems" by simp
    obtain c s' where fs: "f (front r ! i) s = (c, s')"
      by (cases "f (front r ! i) s")
    have t: "take (nFront r - i) (drop i (front r)) =
        front r ! i # take (nFront r - (i + 1)) (drop (i + 1) (front r))"
    proof -
      have m: "nFront r - i = Suc (nFront r - (i + 1))"
        using True by simp
      show ?thesis
        unfolding m using il by (simp add: Cons_nth_drop_Suc [symmetric])
    qed
    show ?thesis
    proof (cases c)
      case False
      then show ?thesis
        using True il fs by (simp add: walk_front.simps [of r f i s] t)
    next
      case c: True
      have "pbind (walk_front r f (i + 1) s')
           (\<lambda>(continue, s). if \<not> continue then Inr s else Inr (walk_back f ys s)) =
         Inr (walk_back f (take (nFront r - (i + 1)) (drop (i + 1) (front r)) @ ys) s')"
        using "1.IH" [OF True il refl fs [symmetric]] True "1.prems" c by simp
      then show ?thesis
        using True il fs c by (simp add: walk_front.simps [of r f i s] t)
    qed
  qed
qed

lemma WalkAttributes_eq:
  assumes "nFront r \<le> length (front r)"
  shows "WalkAttributes h r f s =
     Inr (walk_back f (take (nFront r) (front r) @ slice_elems h (back r)) s)"
  using walk_collect [of 0 r f s "slice_elems h (back r)"] assms
  by (simp add: WalkAttributes_def)

lemma walk_back_collect: "walk_back (\<lambda>a seen. (True, seen @ [a])) xs acc = acc @ xs"
  by (induction xs arbitrary: acc) auto

lemma visited_eq:
  assumes "nFront r \<le> length (front r)"
  shows "visited h r = Inr (take (nFront r) (front r) @ slice_elems h (back r))"
  by (simp add: visited_def WalkAttributes_eq [OF assms] walk_back_collect)

lemma AddAttributes_result:
  assumes vr: "valid_record h r" and va: "valid_slice h attrs"
  shows "\<exists>h' r'. AddAttributes g attrs (h, r) = Inr (h', r') \<and>
      front r' = take (nFront r) (front r) @
                 take (min (len attrs) (length (front r) - nFront r)) (slice_elems h attrs) @
                 drop (nFront r + min (len attrs) (length (front r) - nFront r)) (front r) \<and>
      nFront r' = nFront r + min (len attrs) (length (front r) - nFront r) \<and>
      slice_elems h' (back r') =
        slice_elems h (back r) @
        drop (min (len attrs) (length (front r) - nFront r)) (slice_elems h attrs) \<and>
      len (back r') = len (back r) + (len attrs - min (len attrs) (length (front r) - nFront r)) \<and>
      valid_slice h' (back r') \<and> heap_le h h' \<and>
      unchanged_outside (footprint (back r)) h h' \<and>
      (footprint (back r') \<subseteq> footprint (back r) \<or> next_array h \<le> base (back r'))"
proof -
  define k where "k = min (len attrs) (length (front r) - nFront r)"
  define E where "E = slice_elems h attrs"
  define r1 where "r1 = r\<lparr>front := take (nFront r) (front r) @ take k E @
      drop (nFront r + k) (front r), nFront := nFront r + k\<rparr>"
  have nf: "nFront r \<le> length (front r)" and vb: "valid_slice h (back r)"
    using vr by (simp_all add: valid_record_def)
  have ff: "fill_front h attrs 0 r = (k, r1)"
    using fill_front_eq [OF va _ nf, of 0] by (simp add: k_def E_def r1_def Let_def)
  have "k \<le> len attrs" by (simp add: k_def)
  then obtain rest where rest: "slice_from attrs k = Inr rest" "valid_slice h rest"
    "len rest = len attrs - k" "slice_elems h rest = drop k E"
    using slice_from_elems [OF va, of k] by (auto simp: E_def)
  obtain h1 b1 where gr: "slices_Grow g h (back r) (len rest) = (h1, b1)"
    by (cases "slices_Grow g h (back r) (len rest)")
  note pg = slices_Grow_props [OF vb gr]
  have e1: "slice_elems h1 rest = drop k E"
    using slice_elems_unchanged [OF rest(2) pg(6)] rest(4) by simp
  obtain h2 b2 where ap: "append_slice g h1 b1 (drop k E) = (h2, b2)"
    by (cases "append_slice g h1 b1 (drop k E)")
  note pa = append_slice_props [OF pg(2) ap]
  have br: "back r1 = back r"
    by (simp add: r1_def)
  have res: "AddAttributes g attrs (h, r) = Inr (h2, r1\<lparr>back := b2\<rparr>)"
    using ff rest(1) gr ap e1 by (simp add: AddAttributes_def br)
  have lenE: "length E = len attrs"
    using va by (simp add: E_def valid_slice_len)
  have inplace: "b2 = b1\<lparr>len := len b1 + length (drop k E)\<rparr>"
  proof -
    have "len b1 + length (drop k E) \<le> cap b1"
      using pg(3,4) rest(3) lenE by simp
    then show ?thesis
      using ap by (simp add: append_slice_inplace)
  qed
  have fp2: "footprint b2 = footprint b1"
    by (simp add: inplace footprint_def)
  have un: "unchanged_outside (footprint (back r)) h h2"
    unfolding unchanged_outside_def
  proof (intro allI impI)
    fix a
    assume a: "a < next_array h" "a \<notin> footprint (back r)"
    have "a \<notin> footprint b1"
      using pg(7) a by (auto simp: footprint_def)
    moreover have "a < next_array h1"
      using a pg(5) by (simp add: heap_le_def)
    ultimately have "arrays h2 a = arrays h1 a"
      using pa(5) by (simp add: unchanged_outside_def)
    also have "\<dots> = arrays h a"
      using pg(6) a by (simp add: unchanged_outside_def)
    finally show "arrays h2 a = arrays h a" .
  qed
  have loc: "footprint b2 \<subseteq> footprint (back r) \<or> next_array h \<le> base b2"
    using pg(7) fp2 by (auto simp: inplace)
  have "slice_elems h2 b2 = slice_elems h (back r) @ drop k E"
    using pa(1) pg(1) by simp
  moreover have "len b2 = len (back r) + (len attrs - k)"
    using pa(3) pg(3) lenE by simp
  moreover have "heap_le h h2"
    using pg(5) pa(4) by (rule heap_le_trans)
  ultimately show ?thesis
    using res pa(2) un loc by (simp add: r1_def k_def E_def)
qed

lemma SetAttributes_result:
  assumes va: "valid_slice h attrs"
  shows "\<exists>h' r'. SetAttributes g attrs (h, r) = Inr (h', r') \<and>
      front r' = take (min (len attrs) (length (front r))) (slice_elems h attrs) @
                 drop (min (len attrs) (length (front r))) (front r) \<and>
      nFront r' = min (len attrs) (length (front r)) \<and>
      slice_elems h' (back r') = drop (min (len attrs) (length (front r))) (slice_elems h attrs) \<and>
      len (back r') = len attrs - min (len attrs) (length (front r)) \<and>
      valid_slice h' (back r') \<and> heap_le h h' \<and> unchanged_outside {} h h' \<and>
      (cap (back r') = 0 \<or> next_array h \<le> base (back r'))"
proof -
  define k where "k = min (len attrs) (length (front r))"
  define E where "E = slice_elems h attrs"
  define r0 where "r0 = r\<lparr>nFront := 0\<rparr>"
  define r1 where "r1 = r\<lparr>front := take k E @ drop k (front r), nFront := k\<rparr>"
  have ff: "fill_front h attrs 0 r0 = (k, r1)"
    using fill_front_eq [OF va, of 0 r0] by (simp add: k_def E_def r1_def r0_def Let_def)
  have "k \<le> len attrs" by (simp add: k_def)
  then obtain rest where rest: "slice_from attrs k = Inr rest" "valid_slice h rest"
    "len rest = len attrs - k" "slice_elems h rest = drop k E"
    using slice_from_elems [OF va, of k] by (auto simp: E_def)
  obtain h1 b1 where cl: "slices_Clone g h rest = (h1, b1)"
    by (cases "slices_Clone g h rest")
  note pc = slices_Clone_props [OF rest(2) cl]
  have res: "SetAttributes g attrs (h, r) = Inr (h1, r1\<lparr>back := b1\<rparr>)"
    using ff rest(1) cl by (simp add: SetAttributes_def r0_def)
  have "cap b1 = 0 \<or> next_array h \<le> base b1"
    using pc(6) by auto
  then show ?thesis
    using res pc(1,2,3,4,5) rest(3,4) by (simp add: r1_def k_def E_def)
qed

lemma AddAttributes_inv:
  assumes inv: "container_inv h0 h r" and va: "valid_slice h0 attrs"
  shows "\<exists>h' r'. AddAttributes g attrs (h, r) = Inr (h', r') \<and> container_inv h0 h' r' \<and>
      take (nFront r') (front r') @ slice_elems h' (back r') =
        take (nFront r) (front r) @ slice_elems h (back r) @ slice_elems h0 attrs \<and>
      nFront r' + len (back r') = nFront r + len (back r) + len attrs"
proof -
  have hl: "heap_le h0 h" and un: "unchanged_outside {} h0 h" and vr: "valid_record h r"
    and ord: "nFront r < attributesInlineCount \<longrightarrow> len (back r) = 0"
    and fp: "\<forall>a\<in>footprint (back r). next_array h0 \<le> a"
    using inv by (simp_all add: container_inv_def)
  have L: "length (front r) = attributesInlineCount" and nf: "nFront r \<le> attributesInlineCount"
    and vb: "valid_slice h (back r)"
    using vr by (simp_all add: valid_record_def)
  have va': "valid_slice h attrs"
    using va hl by (rule valid_slice_mono)
  have E: "slice_elems h attrs = slice_elems h0 attrs"
    using slice_elems_unchanged [OF va un] by simp
  define k where "k = min (len attrs) (length (front r) - nFront r)"
  define E0 where "E0 = slice_elems h0 attrs"
  have lenE: "length E0 = len attrs"
    using va by (simp add: E0_def valid_slice_len)
  obtain h' r' where res: "AddAttributes g attrs (h, r) = Inr (h', r')"
    and fr: "front r' = take (nFront r) (front r) @ take k E0 @ drop (nFront r + k) (front r)"
    and nfr: "nFront r' = nFront r + k"
    and el: "slice_elems h' (back r') = slice_elems h (back r) @ drop k E0"
    and lb: "len (back r') = len (back r) + (len attrs - k)"
    and vb': "valid_slice h' (back r')" and hl': "heap_le h h'"
    and un': "unchanged_outside (footprint (back r)) h h'"
    and loc: "footprint (back r') \<subseteq> footprint (back r) \<or> next_array h \<le> base (back r')"
    using AddAttributes_result [OF vr va', of g] unfolding E k_def [symmetric] E0_def [symmetric]
    by blast
  have kle: "k \<le> len attrs" "nFront r + k \<le> length (front r)"
    using nf L by (auto simp: k_def)
  have Lr': "length (front r') = attributesInlineCount"
    using kle lenE L by (simp add: fr)
  have vr': "valid_record h' r'"
    using Lr' vb' kle L by (simp add: valid_record_def nfr)
  have ord': "nFront r' < attributesInlineCount \<longrightarrow> len (back r') = 0"
    using ord L by (auto simp: nfr lb k_def min_def split: if_splits)
  have hl0: "heap_le h0 h'"
    using hl hl' by (rule heap_le_trans)
  have un0: "unchanged_outside {} h0 h'"
    unfolding unchanged_outside_def
  proof (intro allI impI)
    fix a
    assume a: "a < next_array h0" "a \<notin> {}"
    then have "a \<notin> footprint (back r)" using fp by auto
    moreover have "a < next_array h" using a hl by (simp add: heap_le_def)
    ultimately have "arrays h' a = arrays h a"
      using un' by (simp add: unchanged_outside_def)
    then show "arrays h' a = arrays h0 a"
      using un a by (simp add: unchanged_outside_def)
  qed
  have fp': "\<forall>a\<in>footprint (back r'). next_array h0 \<le> a"
  proof
    fix a
    assume a: "a \<in> footprint (back r')"
    show "next_array h0 \<le> a"
      using loc
    proof
      assume "footprint (back r') \<subseteq> footprint (back r)"
      then show ?thesis using a fp by auto
    next
      assume "next_array h \<le> base (back r')"
      moreover have "a = base (back r')"
        using a by (auto simp: footprint_def split: if_splits)
      ultimately show ?thesis using hl by (simp add: heap_le_def)
    qed
  qed
  have tk: "take (nFront r') (front r') = take (nFront r) (front r) @ take k E0"
    using kle lenE nf L by (simp add: fr nfr)
  have content: "take (nFront r') (front r') @ slice_elems h' (back r') =
        take (nFront r) (front r) @ slice_elems h (back r) @ E0"
  proof (cases "nFront r < attributesInlineCount")
    case True
    then have "slice_elems h (back r) = []" using ord by simp
    then show ?thesis by (simp add: tk el)
  next
    case False
    then have "k = 0" using nf L by (simp add: k_def)
    then show ?thesis by (simp add: tk el)
  qed
  have "nFront r' + len (back r') = nFront r + len (back r) + len attrs"
    using kle by (simp add: nfr lb)
  then show ?thesis
    using res hl0 un0 vr' ord' fp' content by (auto simp: container_inv_def E0_def)
qed

lemma AddAttributes_all_inv:
  assumes "container_inv h0 h r" and "\<forall>a\<in>set calls. valid_slice h0 a"
  shows "\<exists>h' r'. AddAttributes_all g calls (h, r) = Inr (h', r') \<and> container_inv h0 h' r' \<and>
      take (nFront r') (front r') @ slice_elems h' (back r') =
        take (nFront r) (front r) @ slice_elems h (back r) @ concat (map (slice_elems h0) calls) \<and>
      nFront r' + len (back r') = nFront r + len (back r) + sum_list (map len calls)"
  using assms
proof (induction calls arbitrary: h r)
  case Nil
  then show ?case by simp
next
  case (Cons attrs calls)
  obtain h1 r1 where s1: "AddAttributes g attrs (h, r) = Inr (h1, r1)" "container_inv h0 h1 r1"
    "take (nFront r1) (front r1) @ slice_elems h1 (back r1) =
        take (nFront r) (front r) @ slice_elems h (back r) @ slice_elems h0 attrs"
    "nFront r1 + len (back r1) = nFront r + len (back r) + len attrs"
    using AddAttributes_inv [of h0 h r attrs g] Cons.prems by auto
  obtain h' r' where s2: "AddAttributes_all g calls (h1, r1) = Inr (h', r')"
    "container_inv h0 h' r'"
    "take (nFront r') (front r') @ slice_elems h' (back r') =
        take (nFront r1) (front r1) @ slice_elems h1 (back r1) @
        concat (map (slice_elems h0) calls)"
    "nFront r' + len (back r') = nFront r1 + len (back r1) + sum_list (map len calls)"
    using Cons.IH [OF s1(2)] Cons.prems(2) by auto
  have "AddAttributes_all g (attrs # calls) (h, r) = Inr (h', r')"
    using s1(1) s2(1) by simp
  moreover have "take (nFront r') (front r') @ slice_elems h' (back r') =
        take (nFront r) (front r) @ slice_elems h (back r) @
        concat (map (slice_elems h0) (attrs # calls))"
    using s1(3) s2(3) by simp
  moreover have "nFront r' + len (back r') =
      nFront r + len (back r) + sum_list (map len (attrs # calls))"
    using s1(4) s2(4) by simp
  ultimately show ?case using s2(2) by blast
qed

lemma container_inv_zero: "container_inv h0 h0 zero_record"
  by (simp add: container_inv_def valid_record_def zero_record_def nil_slice_def valid_slice_def
      footprint_def attributesInlineCount_def)

text \<open>
  Claim C5. Starting from the zero record, after any sequence of \<^verbatim>\<open>AddAttributes\<close> calls
  (each with a slice of the caller's store \<open>h0\<close>), no call has panicked,
  \<^verbatim>\<open>WalkAttributes\<close> passes to any visitor the attributes of all the calls in the order they
  were added (up to the point where the visitor stops), and \<^verbatim>\<open>AttributesLen()\<close> is their
  number. The first \<open>attributesInlineCount = 5\<close> of them are in the inline slots and the others
  in the overflow slice: after exactly 5 attributes the overflow is empty, after 6 it holds
  exactly 1.
\<close>

theorem AddAttributes_order_and_length:
  assumes "\<forall>attrs\<in>set calls. valid_slice h0 attrs"
  shows "\<exists>h r. AddAttributes_all g calls (h0, zero_record) = Inr (h, r) \<and>
      (\<forall>f s. WalkAttributes h r f s = Inr (walk_back f (concat (map (slice_elems h0) calls)) s)) \<and>
      visited h r = Inr (concat (map (slice_elems h0) calls)) \<and>
      AttributesLen r = length (concat (map (slice_elems h0) calls)) \<and>
      nFront r = min (length (concat (map (slice_elems h0) calls))) attributesInlineCount \<and>
      len (back r) = length (concat (map (slice_elems h0) calls)) - attributesInlineCount \<and>
      length (slice_elems h (back r)) = len (back r)"
proof -
  let ?all = "concat (map (slice_elems h0) calls)"
  obtain h r where r: "AddAttributes_all g calls (h0, zero_record) = Inr (h, r)"
    "container_inv h0 h r"
    "take (nFront r) (front r) @ slice_elems h (back r) = ?all"
    "nFront r + len (back r) = sum_list (map len calls)"
    using AddAttributes_all_inv [OF container_inv_zero assms, of g]
    by (auto simp: zero_record_def nil_slice_def)
  have vr: "valid_record h r" and ord: "nFront r < attributesInlineCount \<longrightarrow> len (back r) = 0"
    using r(2) by (simp_all add: container_inv_def)
  then have nf: "nFront r \<le> length (front r)" "nFront r \<le> attributesInlineCount"
    and vb: "valid_slice h (back r)"
    by (simp_all add: valid_record_def)
  have "length ?all = sum_list (map len calls)"
    using assms by (induction calls) (simp_all add: valid_slice_len)
  then have n: "nFront r + len (back r) = length ?all"
    using r(4) by simp
  have v: "visited h r = Inr ?all"
    using visited_eq [OF nf(1)] r(3) by simp
  have "nFront r = min (length ?all) attributesInlineCount"
    using n ord nf(2) by (auto simp: min_def)
  moreover have "len (back r) = length ?all - attributesInlineCount"
    using n ord nf(2) by auto
  ultimately show ?thesis
    using r(1,3) v n valid_slice_len [OF vb] WalkAttributes_eq [OF nf(1), of h]
    by (auto simp: AttributesLen_def)
qed








text \<open>
  Claim C6. From any state of the record, \<^verbatim>\<open>SetAttributes(attrs...)\<close> does not panic;
  afterwards \<^verbatim>\<open>WalkAttributes\<close> yields the attributes of \<open>attrs\<close> in order and
  \<^verbatim>\<open>AttributesLen()\<close> is their number: \<open>2\<close> and \<open>x, y\<close> for \<^verbatim>\<open>SetAttributes(x, y)\<close>, whatever
  the record held before. The record keeps no alias of the caller's storage: whatever the
  caller writes afterwards into the array of \<open>attrs\<close>, or into any array allocated before
  the call, the record yields the same attributes.
\<close>

theorem SetAttributes_replaces_and_copies:
  assumes va: "valid_slice h attrs"
  shows "\<exists>h' r'. SetAttributes g attrs (h, r) = Inr (h', r') \<and>
      visited h' r' = Inr (slice_elems h attrs) \<and>
      AttributesLen r' = len attrs \<and>
      (len attrs = 2 \<longrightarrow> AttributesLen r' = 2 \<and>
         visited h' r' = Inr [slice_elems h attrs ! 0, slice_elems h attrs ! 1]) \<and>
      (\<forall>a new. a < next_array h \<or> a = base attrs \<longrightarrow>
         visited (h'\<lparr>arrays := (arrays h')(a := new)\<rparr>) r' = Inr (slice_elems h attrs))"
proof -
  define k where "k = min (len attrs) (length (front r))"
  define E where "E = slice_elems h attrs"
  obtain h' r' where res: "SetAttributes g attrs (h, r) = Inr (h', r')"
    and fr: "front r' = take k E @ drop k (front r)"
    and nfr: "nFront r' = k"
    and el: "slice_elems h' (back r') = drop k E"
    and lb: "len (back r') = len attrs - k"
    and vb': "valid_slice h' (back r')" and hl: "heap_le h h'"
    and loc: "cap (back r') = 0 \<or> next_array h \<le> base (back r')"
    using SetAttributes_result [OF va, of g r] unfolding k_def [symmetric] E_def [symmetric]
    by blast
  have lenE: "length E = len attrs"
    using va by (simp add: E_def valid_slice_len)
  have kle: "k \<le> len attrs" "k \<le> length (front r)"
    by (auto simp: k_def)
  have nf: "nFront r' \<le> length (front r')"
    using kle lenE by (simp add: fr nfr)
  have tk: "take (nFront r') (front r') = take k E"
    using kle lenE by (simp add: fr nfr)
  have v: "visited h'' r' = Inr (take k E @ slice_elems h'' (back r'))" for h''
    using visited_eq [OF nf, of h''] tk by simp
  have v1: "visited h' r' = Inr E"
    using v [of h'] el by simp
  have len: "AttributesLen r' = len attrs"
    using kle by (simp add: AttributesLen_def nfr lb)
  have two: "E = [E ! 0, E ! 1]" if "len attrs = 2"
  proof -
    have "length E = 2" using lenE that by simp
    then show ?thesis
      by (metis One_nat_def Suc_1 length_0_conv length_Suc_conv nth_Cons_0 nth_Cons_Suc)
  qed
  have mut: "visited (h'\<lparr>arrays := (arrays h')(a := new)\<rparr>) r' = Inr E"
    if a: "a < next_array h \<or> a = base attrs" for a new
  proof -
    let ?h = "h'\<lparr>arrays := (arrays h')(a := new)\<rparr>"
    have "slice_elems ?h (back r') = slice_elems h' (back r')"
    proof (cases "len (back r') = 0")
      case True
      then show ?thesis by simp
    next
      case False
      then have c: "0 < cap (back r')" "0 < len attrs"
        using vb' lb by (auto simp: valid_slice_def)
      then have "next_array h \<le> base (back r')" using loc by simp
      moreover have "base attrs < next_array h"
        using va c(2) by (auto simp: valid_slice_def)
      ultimately have "a \<noteq> base (back r')" using a by auto
      then show ?thesis by (simp add: slice_elems_def)
    qed
    then show ?thesis using v [of ?h] el by simp
  qed
  show ?thesis
    using res v1 len two mut unfolding E_def by (intro exI conjI) auto
qed

subsection \<open>The claims on the container\<close>

lemma example_valid:
  "valid_slice example_heap (whole 1 2)" "valid_slice example_heap (whole 2 2)"
  "valid_slice example_heap (whole 3 5)" "valid_slice example_heap (whole 4 1)"
  "valid_record example_heap example_record"
  by (simp_all add: valid_slice_def valid_record_def example_heap_def whole_def
      example_record_def attributesInlineCount_def)

lemma example_elems:
  "slice_elems example_heap (whole 1 2) = [log_Int ''a'' 1, log_Int ''b'' 2]"
  "slice_elems example_heap (whole 2 2) = [log_Int ''x'' 7, log_Int ''y'' 8]"
  "slice_elems example_heap (whole 3 5) =
     [log_Int ''k1'' 1, log_Int ''k2'' 2, log_Int ''k3'' 3, log_Int ''k4'' 4, log_Int ''k5'' 5]"
  "slice_elems example_heap (whole 4 1) = [log_Int ''k6'' 6]"
  "slice_elems example_heap (whole 5 3) = [log_Int ''k6'' 6, log_Int ''k7'' 7, log_Int ''k8'' 8]"
  by (simp_all add: slice_elems_def example_heap_def whole_def)

theorem AddAttributes_order_and_length_witness:
  "valid_slice example_heap (whole 3 5) \<and> valid_slice example_heap (whole 4 1) \<and>
   (\<exists>h r. AddAttributes_all example_grow [whole 3 5] (example_heap, zero_record) = Inr (h, r) \<and>
      AttributesLen r = 5 \<and> nFront r = 5 \<and> len (back r) = 0 \<and> slice_elems h (back r) = []) \<and>
   (\<exists>h r. AddAttributes_all example_grow [whole 3 5, whole 4 1] (example_heap, zero_record)
        = Inr (h, r) \<and>
      visited h r = Inr [log_Int ''k1'' 1, log_Int ''k2'' 2, log_Int ''k3'' 3, log_Int ''k4'' 4,
        log_Int ''k5'' 5, log_Int ''k6'' 6] \<and>
      AttributesLen r = 6 \<and> nFront r = 5 \<and> len (back r) = 1 \<and>
      length (slice_elems h (back r)) = 1)"
proof -
  have a: "\<forall>attrs\<in>set [whole 3 5]. valid_slice example_heap attrs"
    and b: "\<forall>attrs\<in>set [whole 3 5, whole 4 1]. valid_slice example_heap attrs"
    using example_valid by simp_all
  have c5: "concat (map (slice_elems example_heap) [whole 3 5]) =
      [log_Int ''k1'' 1, log_Int ''k2'' 2, log_Int ''k3'' 3, log_Int ''k4'' 4, log_Int ''k5'' 5]"
    and c6: "concat (map (slice_elems example_heap) [whole 3 5, whole 4 1]) =
      [log_Int ''k1'' 1, log_Int ''k2'' 2, log_Int ''k3'' 3, log_Int ''k4'' 4, log_Int ''k5'' 5,
       log_Int ''k6'' 6]"
    by (simp_all only: list.map concat.simps example_elems append.simps)
  obtain h r where r: "AddAttributes_all example_grow [whole 3 5] (example_heap, zero_record)
        = Inr (h, r)"
    "AttributesLen r = length (concat (map (slice_elems example_heap) [whole 3 5]))"
    "nFront r = min (length (concat (map (slice_elems example_heap) [whole 3 5])))
       attributesInlineCount"
    "len (back r) = length (concat (map (slice_elems example_heap) [whole 3 5]))
       - attributesInlineCount"
    using AddAttributes_order_and_length [OF a, of example_grow] by blast
  have r': "AttributesLen r = 5" "nFront r = 5" "len (back r) = 0"
    using r(2,3,4) unfolding c5 by (simp_all add: attributesInlineCount_def)
  then have "slice_elems h (back r) = []" by simp
  then have first: "\<exists>h r. AddAttributes_all example_grow [whole 3 5] (example_heap, zero_record)
        = Inr (h, r) \<and>
      AttributesLen r = 5 \<and> nFront r = 5 \<and> len (back r) = 0 \<and> slice_elems h (back r) = []"
    using r(1) r' by blast
  obtain h2 r2 where s: "AddAttributes_all example_grow [whole 3 5, whole 4 1]
        (example_heap, zero_record) = Inr (h2, r2)"
    "visited h2 r2 = Inr (concat (map (slice_elems example_heap) [whole 3 5, whole 4 1]))"
    "AttributesLen r2 = length (concat (map (slice_elems example_heap) [whole 3 5, whole 4 1]))"
    "nFront r2 = min (length (concat (map (slice_elems example_heap) [whole 3 5, whole 4 1])))
       attributesInlineCount"
    "len (back r2) = length (concat (map (slice_elems example_heap) [whole 3 5, whole 4 1]))
       - attributesInlineCount"
    "length (slice_elems h2 (back r2)) = len (back r2)"
    using AddAttributes_order_and_length [OF b, of example_grow] by blast
  have s': "AttributesLen r2 = 6" "nFront r2 = 5" "len (back r2) = 1"
    using s(3,4,5) unfolding c6 by (simp_all add: attributesInlineCount_def)
  have "\<exists>h r. AddAttributes_all example_grow [whole 3 5, whole 4 1] (example_heap, zero_record)
        = Inr (h, r) \<and>
      visited h r = Inr [log_Int ''k1'' 1, log_Int ''k2'' 2, log_Int ''k3'' 3, log_Int ''k4'' 4,
        log_Int ''k5'' 5, log_Int ''k6'' 6] \<and>
      AttributesLen r = 6 \<and> nFront r = 5 \<and> len (back r) = 1 \<and>
      length (slice_elems h (back r)) = 1"
    using s(1,2,6) s' unfolding c6 by (intro exI [of _ h2] exI [of _ r2]) simp
  then show ?thesis
    using first example_valid(3,4) by blast
qed

theorem SetAttributes_replaces_and_copies_witness:
  "valid_slice example_heap (whole 2 2) \<and> AttributesLen example_record = 8 \<and>
   len (whole 2 2) = 2 \<and>
   (\<exists>h' r'. SetAttributes example_grow (whole 2 2) (example_heap, example_record) = Inr (h', r') \<and>
      visited h' r' = Inr [log_Int ''x'' 7, log_Int ''y'' 8] \<and> AttributesLen r' = 2 \<and>
      visited (h'\<lparr>arrays := (arrays h')(2 := [])\<rparr>) r' = Inr [log_Int ''x'' 7, log_Int ''y'' 8])"
proof -
  have l: "AttributesLen example_record = 8" "len (whole 2 2) = 2" "base (whole 2 2) = 2"
    by (simp_all add: AttributesLen_def example_record_def whole_def)
  note t = SetAttributes_replaces_and_copies [OF example_valid(2),
      where g = example_grow and r = example_record]
  obtain h' r' where r:
    "SetAttributes example_grow (whole 2 2) (example_heap, example_record) = Inr (h', r')"
    and v: "visited h' r' = Inr (slice_elems example_heap (whole 2 2))"
    and n: "AttributesLen r' = len (whole 2 2)"
    and m: "\<forall>a new. a < next_array example_heap \<or> a = base (whole 2 2) \<longrightarrow>
       visited (h'\<lparr>arrays := (arrays h')(a := new)\<rparr>) r' =
         Inr (slice_elems example_heap (whole 2 2))"
    using t by (elim exE conjE) (rule that)
  have "visited (h'\<lparr>arrays := (arrays h')(2 := [])\<rparr>) r' =
      Inr (slice_elems example_heap (whole 2 2))"
    using m [rule_format, of 2 "[]"] l(3) by simp
  then have "visited (h'\<lparr>arrays := (arrays h')(2 := [])\<rparr>) r' =
      Inr [log_Int ''x'' 7, log_Int ''y'' 8]"
    by (simp only: example_elems)
  moreover have "visited h' r' = Inr [log_Int ''x'' 7, log_Int ''y'' 8]"
    using v by (simp only: example_elems)
  moreover have "AttributesLen r' = 2"
    using n l(2) by simp
  ultimately show ?thesis
    using r l(1,2) example_valid(2) by blast
qed







end
